theory Spec2Isabelle
  imports Main "HOL-Library.AList" "HOL-Library.Multiset"
begin

section \<open>Times\<close>

text \<open>
  The program works on Go \<^verbatim>\<open>time.Time\<close> values: it compares them (\<^verbatim>\<open>Before\<close>,
  \<^verbatim>\<open>After\<close>, \<^verbatim>\<open>Equal\<close>, \<^verbatim>\<open>IsZero\<close>), uses them as map keys and advances them with
  \<^verbatim>\<open>AddDate\<close>. A \<^verbatim>\<open>Time\<close> is a struct of three fields. No value of this program carries
  a monotonic clock reading (none comes from \<^verbatim>\<open>time.Now\<close>), so \<open>wall\<close> holds the
  nanoseconds within the second and \<open>ext\<close> the seconds since January 1 of year 1,
  00:00:00 UTC, a signed 64-bit number. \<open>loc\<close> is a pointer to a \<^verbatim>\<open>Location\<close>: \<open>UTC\<close> is
  the nil pointer that Go stores for UTC, and \<open>Zone i secs\<close> is the pointer numbered \<open>i\<close>
  to a zone that is \<open>secs\<close> seconds east of UTC. Two pointers to zones of the same offset
  are different locations. Zones whose offset changes over the year are outside the
  model.

  Go compares two \<^verbatim>\<open>Time\<close> structs with \<^verbatim>\<open>==\<close> field by field, and so does a map whose
  keys are of type \<^verbatim>\<open>time.Time\<close>; that is the equality of the record. \<^verbatim>\<open>Equal\<close>,
  \<^verbatim>\<open>Before\<close> and \<^verbatim>\<open>After\<close> compare the instants, seconds first and then nanoseconds, and
  do not look at the location.
\<close>

datatype Location = UTC | Zone nat int

fun offset :: "Location \<Rightarrow> int" where
  "offset UTC = 0"
| "offset (Zone i secs) = secs"

record Time =
  wall :: int
  ext :: int
  loc :: Location

abbreviation (input) IsZero :: "Time \<Rightarrow> bool" where
  "IsZero t \<equiv> ext t = 0 \<and> wall t = 0"

abbreviation (input) Before :: "Time \<Rightarrow> Time \<Rightarrow> bool" where
  "Before t u \<equiv> ext t < ext u \<or> (ext t = ext u \<and> wall t < wall u)"

abbreviation (input) After :: "Time \<Rightarrow> Time \<Rightarrow> bool" where
  "After t u \<equiv> ext t > ext u \<or> (ext t = ext u \<and> wall t > wall u)"

abbreviation (input) Equal :: "Time \<Rightarrow> Time \<Rightarrow> bool" where
  "Equal t u \<equiv> ext t = ext u \<and> wall t = wall u"

definition zero_Time :: Time where
  "zero_Time = \<lparr>wall = 0, ext = 0, loc = UTC\<rparr>"

text \<open>
  Machine integers. The seconds of a \<^verbatim>\<open>Time\<close> are an \<^verbatim>\<open>int64\<close> and the absolute seconds
  that the calendar functions work on are a \<^verbatim>\<open>uint64\<close>; both wrap around. The values
  between the conversions are sums and products only, so the model computes them as
  unbounded integers and wraps where Go converts: \<open>uint64\<close> in \<^verbatim>\<open>(Time).abs\<close> and \<open>int64\<close>
  at the end of \<^verbatim>\<open>time.Date\<close>. Years, months and days are Go \<^verbatim>\<open>int\<close>s that stay far
  from their limits.
\<close>

definition int64 :: "int \<Rightarrow> int" where
  "int64 x = (x + 9223372036854775808) mod 18446744073709551616 - 9223372036854775808"

definition uint64 :: "int \<Rightarrow> int" where
  "uint64 x = x mod 18446744073709551616"

text \<open>
  The constants of the package \<^verbatim>\<open>time\<close>. The absolute epoch is January 1 of the year
  \<open>absoluteZeroYear\<close>, which is 1 modulo 400; \<open>internalToAbsolute\<close> is the number of
  seconds from there to January 1 of year 1.
\<close>

definition secondsPerDay :: int where "secondsPerDay = 86400"
definition absoluteZeroYear :: int where "absoluteZeroYear = - 292277022399"
definition internalToAbsolute :: int where "internalToAbsolute = 9223371966579724800"
definition absoluteToInternal :: int where "absoluteToInternal = - 9223371966579724800"
definition unixToInternal :: int where "unixToInternal = 62135596800"
definition internalToUnix :: int where "internalToUnix = - 62135596800"

text \<open>
  The standard library is not part of the repository; the calendar functions below
  follow its package \<^verbatim>\<open>time\<close>. \<open>Time_abs\<close> is \<^verbatim>\<open>(Time).abs\<close>: the seconds since the absolute
  epoch in the zone of the time. \<open>absDate\<close> cuts the days into 400-, 100-, 4- and 1-year
  cycles for the year and the day of the year, and \<open>yday_month_day\<close> finds the month in
  the table \<open>daysBefore\<close>; together they are \<^verbatim>\<open>(Time).Date\<close>. \<open>absClock\<close> is \<^verbatim>\<open>(Time).Clock\<close>.
\<close>

definition isLeap :: "int \<Rightarrow> bool" where
  "isLeap year = (year mod 4 = 0 \<and> (year mod 100 \<noteq> 0 \<or> year mod 400 = 0))"

definition daysBefore :: "int list" where
  "daysBefore = [0, 31, 59, 90, 120, 151, 181, 212, 243, 273, 304, 334, 365]"

definition Time_abs :: "Time \<Rightarrow> int" where
  "Time_abs t = uint64 (ext t + offset (loc t) + internalToAbsolute)"

definition absDate :: "int \<Rightarrow> int \<times> int" where
  "absDate absSec =
     (let d = absSec div secondsPerDay;
          n = d div 146097; y = 400 * n; d = d - 146097 * n;
          n = d div 36524; n = n - n div 4; y = y + 100 * n; d = d - 36524 * n;
          n = d div 1461; y = y + 4 * n; d = d - 1461 * n;
          n = d div 365; n = n - n div 4; y = y + n; d = d - 365 * n
      in (y + absoluteZeroYear, d))"

definition yday_month_day :: "bool \<Rightarrow> int \<Rightarrow> int \<times> int" where
  "yday_month_day leap yday =
     (if leap \<and> yday = 31 + 29 - 1 then (2, 29)
      else
        let day = (if leap \<and> 31 + 29 - 1 < yday then yday - 1 else yday);
            month = day div 31;
            end = daysBefore ! nat (month + 1);
            (month, begin) =
              (if end \<le> day then (month + 1, end) else (month, daysBefore ! nat month))
        in (month + 1, day - begin + 1))"

definition Time_Date :: "Time \<Rightarrow> int \<times> int \<times> int" where
  "Time_Date t =
     (let (year, yday) = absDate (Time_abs t);
          (month, day) = yday_month_day (isLeap year) yday
      in (year, month, day))"

definition absClock :: "int \<Rightarrow> int \<times> int \<times> int" where
  "absClock absSec =
     (let sec = absSec mod secondsPerDay;
          hour = sec div 3600; sec = sec - hour * 3600;
          minute = sec div 60; sec = sec - minute * 60
      in (hour, minute, sec))"

definition Clock :: "Time \<Rightarrow> int \<times> int \<times> int" where
  "Clock t = absClock (Time_abs t)"

text \<open>
  \<^verbatim>\<open>time.Date\<close> normalises its arguments: \<open>norm\<close> carries what exceeds the base into the
  next unit, for the month into the year and for nanoseconds, seconds, minutes and
  hours up to the day. The day is not normalised: \<open>date_days\<close> adds it as an offset to the
  first day of the month, so that a day past the end of the month runs into the next
  month. \<open>daysSinceEpoch\<close> is the number of days from the absolute epoch to January 1 of
  a year, written in closed form. The zone of the model has one offset, which
  \<^verbatim>\<open>time.Date\<close> subtracts to get UTC.
\<close>

definition norm :: "int \<Rightarrow> int \<Rightarrow> int \<Rightarrow> int \<times> int" where
  "norm hi lo base = (hi + lo div base, lo mod base)"

definition daysSinceEpoch :: "int \<Rightarrow> int" where
  "daysSinceEpoch year =
     (let y = year - absoluteZeroYear in 365 * y + y div 4 - y div 100 + y div 400)"

definition date_days :: "int \<Rightarrow> int \<Rightarrow> int \<Rightarrow> int" where
  "date_days year m day =
     (let d = daysSinceEpoch year + daysBefore ! nat m;
          d = (if isLeap year \<and> 3 \<le> m + 1 then d + 1 else d)
      in d + (day - 1))"

definition time_Date ::
  "int \<Rightarrow> int \<Rightarrow> int \<Rightarrow> int \<Rightarrow> int \<Rightarrow> int \<Rightarrow> int \<Rightarrow> Location \<Rightarrow> Time" where
  "time_Date year month day hour minute second nsec location =
     (let m = month - 1;
          (year, m) = norm year m 12;
          (second, nsec) = norm second nsec 1000000000;
          (minute, second) = norm minute second 60;
          (hour, minute) = norm hour minute 60;
          (day, hour) = norm day hour 24;
          d = date_days year m day;
          absSec = d * secondsPerDay + (hour * 3600 + minute * 60 + second);
          unix = absSec + (absoluteToInternal + internalToUnix);
          unix = unix - offset location
      in \<lparr>wall = nsec, ext = int64 (unix + unixToInternal), loc = location\<rparr>)"

definition AddDate :: "Time \<Rightarrow> int \<Rightarrow> int \<Rightarrow> int \<Rightarrow> Time" where
  "AddDate t years months days =
     (let (year, month, day) = Time_Date t;
          (hour, minute, second) = Clock t
      in time_Date (year + years) (month + months) (day + days) hour minute second
           (wall t) (loc t))"

text \<open>
  A calendar day at midnight UTC, for the examples: \<open>utc_date y m d\<close> is
  \<^verbatim>\<open>time.Date(y, m, d, 0, 0, 0, 0, time.UTC)\<close>.
\<close>

abbreviation utc_date :: "int \<Rightarrow> int \<Rightarrow> int \<Rightarrow> Time" where
  "utc_date year month day \<equiv> time_Date year month day 0 0 0 0 UTC"

section \<open>Data model\<close>

text \<open>
  \<^verbatim>\<open>Frequency\<close> is a Go string type; any string can occur, the six constants are the
  recognised tags and the empty string stands for no recurrence. Amounts are
  \<^verbatim>\<open>float64\<close> in the source. They are kept abstract here: a type \<open>'v\<close> with a zero and
  an addition of which no law is assumed, so that results do not depend on
  associativity or on the absence of rounding; the test \<^verbatim>\<open>event.Value == 0\<close> is equality
  with that zero. The fields \<^verbatim>\<open>Name\<close> and \<^verbatim>\<open>Value\<close> of
  \<^verbatim>\<open>CashflowItem\<close> are \<open>ItemName\<close> and \<open>ItemValue\<close>, since \<^verbatim>\<open>Event\<close> has fields of the
  same names. An absent \<^verbatim>\<open>EndDate\<close> is the zero \<^verbatim>\<open>Time\<close>, as in the source.
\<close>

type_synonym Frequency = string

abbreviation Daily :: Frequency where "Daily \<equiv> ''daily''"
abbreviation Weekly :: Frequency where "Weekly \<equiv> ''weekly''"
abbreviation Monthly :: Frequency where "Monthly \<equiv> ''monthly''"
abbreviation Quarterly :: Frequency where "Quarterly \<equiv> ''quarterly''"
abbreviation SemiAnnual :: Frequency where "SemiAnnual \<equiv> ''semi-annual''"
abbreviation Annual :: Frequency where "Annual \<equiv> ''annual''"

record 'v Event =
  Name :: string
  StartDate :: Time
  EndDate :: Time
  Frequency :: Frequency
  Value :: 'v
  Obs :: string

record 'v CashflowItem =
  ItemName :: string
  ItemValue :: 'v

record 'v Cashflow =
  Date :: Time
  Cashflow :: 'v
  Balance :: 'v
  Items :: "'v CashflowItem list"

record 'v SimulationRequest =
  Events :: "'v Event list"
  InitialBalance :: 'v
  SimStart :: Time
  SimEnd :: Time

record 'v SimulationResponse =
  Cashflows :: "'v Cashflow list"

text \<open>
  The errors of the source are built with \<^verbatim>\<open>fmt.Errorf\<close>: an invalid frequency in
  \<^verbatim>\<open>GetNextDate\<close>, an invalid window in \<^verbatim>\<open>GenerateCashflows\<close>, and the wrapping
  (\<^verbatim>\<open>%w\<close>) of the latter in \<^verbatim>\<open>RunSimulation\<close>.
\<close>

datatype error =
    InvalidFrequency Frequency
  | InvalidWindow
  | SimulationError error

section \<open>Recurrence calculator\<close>

definition frequencyDeltas :: "Frequency \<rightharpoonup> (Time \<Rightarrow> Time)" where
  "frequencyDeltas =
     [Daily \<mapsto> (\<lambda>t. AddDate t 0 0 1),
      Weekly \<mapsto> (\<lambda>t. AddDate t 0 0 7),
      Monthly \<mapsto> (\<lambda>t. AddDate t 0 1 0),
      Quarterly \<mapsto> (\<lambda>t. AddDate t 0 3 0),
      SemiAnnual \<mapsto> (\<lambda>t. AddDate t 0 6 0),
      Annual \<mapsto> (\<lambda>t. AddDate t 1 0 0)]"

definition IsValidFrequency :: "Frequency \<Rightarrow> bool" where
  "IsValidFrequency freq = (case frequencyDeltas freq of None \<Rightarrow> False | Some delta \<Rightarrow> True)"

definition GetNextDate :: "Time \<Rightarrow> Frequency \<Rightarrow> error + Time" where
  "GetNextDate currentDate freq =
     (case frequencyDeltas freq of
        None \<Rightarrow> Inl (InvalidFrequency freq)
      | Some delta \<Rightarrow> Inr (delta currentDate))"

section \<open>First-occurrence resolver\<close>

text \<open>
  \<^verbatim>\<open>GetFirstDate\<close> returns a pair \<^verbatim>\<open>(time.Time, bool)\<close>. Its \<^verbatim>\<open>for\<close> loop is a partial
  function into \<open>option\<close>: \<open>None\<close> is a loop that never returns.
\<close>

partial_function (option) GetFirstDate_loop ::
  "Time \<Rightarrow> Frequency \<Rightarrow> Time \<Rightarrow> (Time \<times> bool) option" where
  "GetFirstDate_loop currentDate freq cfBegin =
     (if Before currentDate cfBegin then
        (case GetNextDate currentDate freq of
           Inl err \<Rightarrow> Some (zero_Time, False)
         | Inr nextDate \<Rightarrow> GetFirstDate_loop nextDate freq cfBegin)
      else Some (currentDate, True))"

declare GetFirstDate_loop.simps [code]

definition GetFirstDate :: "'v Event \<Rightarrow> Time \<Rightarrow> Time \<Rightarrow> (Time \<times> bool) option" where
  "GetFirstDate event cfBegin cfEnd =
     (let startDate = StartDate event in
      if Before cfEnd startDate then Some (zero_Time, False)
      else if \<not> IsZero (EndDate event) \<and> Before (EndDate event) cfBegin
        then Some (zero_Time, False)
      else if Frequency event = '''' \<or>
              (\<not> IsZero (EndDate event) \<and> Equal startDate (EndDate event))
        then Some (startDate, True)
      else if Frequency event = Daily then Some (cfBegin, True)
      else GetFirstDate_loop startDate (Frequency event) cfBegin)"

section \<open>Cashflow generator\<close>

text \<open>
  \<^verbatim>\<open>cfMap\<close> is a Go map from \<^verbatim>\<open>time.Time\<close> to item slices. It is an association list
  with one pair per key, the keys compared as structs; reading a missing key gives the
  empty slice, and \<^verbatim>\<open>cfMap[d] = append(cfMap[d], item)\<close> is \<open>cfMap_append\<close>.

  Two things are left open by Go and are parameters of the model, a \<open>runtime\<close>: the
  order in which \<^verbatim>\<open>range\<close> visits the pairs of a map, and the order in which
  \<^verbatim>\<open>sort.Slice\<close>, which is not stable, leaves elements of which none is before the
  other. \<open>runtime_ok\<close> says what Go promises: \<^verbatim>\<open>range\<close> visits every pair once, and
  \<^verbatim>\<open>sort.Slice\<close> permutes the slice so that no element is \<^verbatim>\<open>Before\<close> one that precedes
  it. Properties are proved for every such runtime.

  \<^verbatim>\<open>GenerateCashflows\<close> is split along its loops: \<open>expand_event\<close> is the inner \<^verbatim>\<open>for\<close>
  loop that records the occurrences of one event, \<open>process_event\<close> the body of the loop
  over the events, \<open>events_loop\<close> that loop, and \<open>cfMap_entries\<close> with \<open>items_total\<close> the
  conversion of the map into a slice of entries. The loops are partial functions into
  \<open>option\<close>, where \<open>None\<close> is a loop that never returns.
\<close>

type_synonym 'v cfMap = "(Time \<times> 'v CashflowItem list) list"

record 'v runtime =
  range_order :: "'v cfMap \<Rightarrow> 'v cfMap"
  sort_Slice :: "'v Cashflow list \<Rightarrow> 'v Cashflow list"

definition runtime_ok :: "'v runtime \<Rightarrow> bool" where
  "runtime_ok rt =
     ((\<forall>cfMap. mset (range_order rt cfMap) = mset cfMap) \<and>
      (\<forall>cashflows. mset (sort_Slice rt cashflows) = mset cashflows \<and>
         sorted_wrt (\<lambda>a b. \<not> Before (Date b) (Date a)) (sort_Slice rt cashflows)))"

definition cfMap_get :: "'v cfMap \<Rightarrow> Time \<Rightarrow> 'v CashflowItem list" where
  "cfMap_get cfMap date = (case map_of cfMap date of None \<Rightarrow> [] | Some items \<Rightarrow> items)"

definition cfMap_append :: "Time \<Rightarrow> 'v CashflowItem \<Rightarrow> 'v cfMap \<Rightarrow> 'v cfMap" where
  "cfMap_append date item cfMap = AList.update date (cfMap_get cfMap date @ [item]) cfMap"

partial_function (option) expand_event ::
  "'v Event \<Rightarrow> Time \<Rightarrow> Time \<Rightarrow> 'v cfMap \<Rightarrow> 'v cfMap option" where
  "expand_event event cfEnd currentDate cfMap =
     (if After currentDate cfEnd then Some cfMap
      else if \<not> IsZero (EndDate event) \<and> Before (EndDate event) currentDate then Some cfMap
      else
        let item = \<lparr>ItemName = Name event, ItemValue = Value event\<rparr>;
            cfMap = cfMap_append currentDate item cfMap
        in if Frequency event = '''' then Some cfMap
           else (case GetNextDate currentDate (Frequency event) of
                   Inl err \<Rightarrow> Some cfMap
                 | Inr nextDate \<Rightarrow> expand_event event cfEnd nextDate cfMap))"

declare expand_event.simps [code]

definition process_event ::
  "Time \<Rightarrow> Time \<Rightarrow> 'v::zero Event \<Rightarrow> 'v cfMap \<Rightarrow> 'v cfMap option" where
  "process_event cfBegin cfEnd event cfMap =
     (if Value event = 0 then Some cfMap
      else (case GetFirstDate event cfBegin cfEnd of
              None \<Rightarrow> None
            | Some (currentDate, ok) \<Rightarrow>
                if \<not> ok then Some cfMap
                else expand_event event cfEnd currentDate cfMap))"

fun events_loop ::
  "Time \<Rightarrow> Time \<Rightarrow> 'v::zero Event list \<Rightarrow> 'v cfMap \<Rightarrow> 'v cfMap option" where
  "events_loop cfBegin cfEnd [] cfMap = Some cfMap"
| "events_loop cfBegin cfEnd (event # events) cfMap =
     (case process_event cfBegin cfEnd event cfMap of
        None \<Rightarrow> None
      | Some cfMap \<Rightarrow> events_loop cfBegin cfEnd events cfMap)"

definition items_total :: "'v::{zero,plus} CashflowItem list \<Rightarrow> 'v" where
  "items_total items = foldl (\<lambda>total item. total + ItemValue item) 0 items"

definition cfMap_entries :: "'v::{zero,plus} cfMap \<Rightarrow> 'v Cashflow list" where
  "cfMap_entries cfMap =
     map (\<lambda>(date, items).
            \<lparr>Date = date, Cashflow = items_total items, Balance = 0, Items = items\<rparr>) cfMap"

definition sortCashflowsByDate :: "'v runtime \<Rightarrow> 'v Cashflow list \<Rightarrow> 'v Cashflow list" where
  "sortCashflowsByDate rt cashflows = sort_Slice rt cashflows"

definition GenerateCashflows ::
  "'v::{zero,plus} runtime \<Rightarrow> 'v Event list \<Rightarrow> Time \<Rightarrow> Time \<Rightarrow>
     (error + 'v Cashflow list) option" where
  "GenerateCashflows rt events cfBegin cfEnd =
     (if After cfBegin cfEnd then Some (Inl InvalidWindow)
      else (case events_loop cfBegin cfEnd events [] of
              None \<Rightarrow> None
            | Some cfMap \<Rightarrow>
                Some (Inr (sortCashflowsByDate rt (cfMap_entries (range_order rt cfMap))))))"

section \<open>Balance accumulator and orchestrator\<close>

definition emptyCashflowItems :: "'v CashflowItem list" where
  "emptyCashflowItems = []"

definition BalanceFromCashflows ::
  "'v::{zero,plus} \<Rightarrow> Time \<Rightarrow> 'v Cashflow list \<Rightarrow> 'v Cashflow list" where
  "BalanceFromCashflows initialBalance simStart cashflows =
     (let result = [\<lparr>Date = simStart, Cashflow = 0, Balance = initialBalance,
                      Items = emptyCashflowItems\<rparr>]
      in fst (foldl (\<lambda>(result, runningBalance) cf.
                       let runningBalance = runningBalance + Cashflow cf
                       in (result @ [cf\<lparr>Balance := runningBalance\<rparr>], runningBalance))
                (result, initialBalance) cashflows))"

definition RunSimulation ::
  "'v::{zero,plus} runtime \<Rightarrow> 'v SimulationRequest \<Rightarrow>
     (error + 'v SimulationResponse) option" where
  "RunSimulation rt req =
     (case GenerateCashflows rt (Events req) (SimStart req) (SimEnd req) of
        None \<Rightarrow> None
      | Some (Inl err) \<Rightarrow> Some (Inl (SimulationError err))
      | Some (Inr cashflows) \<Rightarrow>
          Some (Inr \<lparr>Cashflows =
            BalanceFromCashflows (InitialBalance req) (SimStart req) cashflows\<rparr>))"

section \<open>Auxiliary notions\<close>

text \<open>
  \<open>civil_days\<close> is the number of days from the absolute epoch to a civil date, as
  \<^verbatim>\<open>time.Date\<close> computes it from the year, the month and the day.
\<close>

definition civil_days :: "int \<Rightarrow> int \<Rightarrow> int \<Rightarrow> int" where
  "civil_days year month day =
     (let (year, m) = norm year (month - 1) 12 in date_days year m day)"

text \<open>
  A \<^verbatim>\<open>Time\<close> of Go is \<open>wellformed\<close>: its nanoseconds are below one second and its seconds
  are an \<^verbatim>\<open>int64\<close>. It is \<open>in_range\<close> when it is moreover at least 372 days before the
  largest \<^verbatim>\<open>Time\<close>, so that no advance by a day, a week, or one to twelve months from it
  leaves the \<^verbatim>\<open>int64\<close>. \<open>dates_in_range\<close> asks that of the end of a window, the other
  dates of the input being any \<^verbatim>\<open>Time\<close> of Go.
\<close>

definition wellformed :: "Time \<Rightarrow> bool" where
  "wellformed t =
     (0 \<le> wall t \<and> wall t < 1000000000 \<and>
      - 9223372036854775808 \<le> ext t \<and> ext t \<le> 9223372036854775807)"

definition in_range :: "Time \<Rightarrow> bool" where
  "in_range t = (wellformed t \<and> ext t \<le> 9223372036822635007)"

definition dates_in_range :: "'v Event list \<Rightarrow> Time \<Rightarrow> Time \<Rightarrow> bool" where
  "dates_in_range events cfBegin cfEnd =
     (wellformed cfBegin \<and> in_range cfEnd \<and>
      list_all (\<lambda>event. wellformed (StartDate event)) events)"

text \<open>
  The invariant of the map that the generator maintains: every key holds at least one
  item, and every item was built from an event of the input whose value is not zero.
\<close>

definition items_from :: "'v::zero Event list \<Rightarrow> 'v cfMap \<Rightarrow> bool" where
  "items_from events cfMap =
     (\<forall>(date, items) \<in> set cfMap. items \<noteq> [] \<and>
        (\<forall>item \<in> set items. \<exists>event \<in> set events.
           Value event \<noteq> 0 \<and> item = \<lparr>ItemName = Name event, ItemValue = Value event\<rparr>))"

text \<open>
  A runtime for the examples: \<^verbatim>\<open>range\<close> visits the pairs from the last one stored to the
  first, and \<^verbatim>\<open>sort.Slice\<close> is the insertion sort that the library uses on short slices.
\<close>

fun insert_by_date :: "'v Cashflow \<Rightarrow> 'v Cashflow list \<Rightarrow> 'v Cashflow list" where
  "insert_by_date cf [] = [cf]"
| "insert_by_date cf (x # xs) =
     (if Before (Date cf) (Date x) then cf # x # xs else x # insert_by_date cf xs)"

definition insertion_sort :: "'v Cashflow list \<Rightarrow> 'v Cashflow list" where
  "insertion_sort cashflows = foldl (\<lambda>sorted cf. insert_by_date cf sorted) [] cashflows"

definition example_runtime :: "'v runtime" where
  "example_runtime = \<lparr>range_order = rev, sort_Slice = insertion_sort\<rparr>"

text \<open>
  The scenario of the test \<^verbatim>\<open>TestRunSimulation\<close>: a monthly salary and a monthly rent
  from 2025-01-01, simulated from 2025-01-01 to 2025-03-31 with an initial balance of
  1000.
\<close>

definition example_events :: "int Event list" where
  "example_events =
     [\<lparr>Name = ''Salary'', StartDate = utc_date 2025 1 1, EndDate = zero_Time,
        Frequency = Monthly, Value = 5000, Obs = ''''\<rparr>,
      \<lparr>Name = ''Rent'', StartDate = utc_date 2025 1 1, EndDate = zero_Time,
        Frequency = Monthly, Value = - 1500, Obs = ''''\<rparr>]"


definition example_cashflows :: "int Cashflow list" where
  "example_cashflows =
     [\<lparr>Date = utc_date 2025 1 1, Cashflow = 3500, Balance = 0,
        Items = [\<lparr>ItemName = ''Salary'', ItemValue = 5000\<rparr>,
                 \<lparr>ItemName = ''Rent'', ItemValue = - 1500\<rparr>]\<rparr>,
      \<lparr>Date = utc_date 2025 2 1, Cashflow = 3500, Balance = 0,
        Items = [\<lparr>ItemName = ''Salary'', ItemValue = 5000\<rparr>,
                 \<lparr>ItemName = ''Rent'', ItemValue = - 1500\<rparr>]\<rparr>,
      \<lparr>Date = utc_date 2025 3 1, Cashflow = 3500, Balance = 0,
        Items = [\<lparr>ItemName = ''Salary'', ItemValue = 5000\<rparr>,
                 \<lparr>ItemName = ''Rent'', ItemValue = - 1500\<rparr>]\<rparr>]"

text \<open>
  A request with one event without frequency that starts before the simulation does.
\<close>

definition early_request :: "int SimulationRequest" where
  "early_request =
     \<lparr>Events = [\<lparr>Name = ''Deposit'', StartDate = utc_date 2024 6 1, EndDate = zero_Time,
                  Frequency = '''', Value = 100, Obs = ''''\<rparr>],
       InitialBalance = 1000, SimStart = utc_date 2025 1 1, SimEnd = utc_date 2025 12 31\<rparr>"

text \<open>
  Two events on the same instant, 2025-01-15 00:00:00 UTC. Decoded from JSON, the first
  date was written with the suffix \<^verbatim>\<open>Z\<close> and has the location UTC; the second was written
  with the offset \<^verbatim>\<open>+00:00\<close> and points to a zone of offset 0.
\<close>

definition same_instant_events :: "int Event list" where
  "same_instant_events =
     [\<lparr>Name = ''First'', StartDate = utc_date 2025 1 15, EndDate = zero_Time,
        Frequency = '''', Value = 1000, Obs = ''''\<rparr>,
      \<lparr>Name = ''Second'', StartDate = time_Date 2025 1 15 0 0 0 0 (Zone 1 0),
        EndDate = zero_Time, Frequency = '''', Value = 2000, Obs = ''''\<rparr>]"

text \<open>
  Dates at the end of the range of \<^verbatim>\<open>int64\<close> seconds: June 15 of the last year whose
  June 15 is a \<^verbatim>\<open>Time\<close>, and the largest \<^verbatim>\<open>Time\<close> with no nanoseconds.
\<close>

definition last_june :: Time where
  "last_june = utc_date 292277024627 6 15"


definition last_june_event :: "int Event" where
  "last_june_event =
     \<lparr>Name = ''Fee'', StartDate = last_june, EndDate = last_june,
       Frequency = Annual, Value = 100, Obs = ''''\<rparr>"



section \<open>Calendar arithmetic\<close>

text \<open>
  The civil date of a \<^verbatim>\<open>Time\<close> converts back to its day, and a month has 28 to 31 days.
  So \<open>AddDate\<close> adds a number of whole days to the seconds of a \<^verbatim>\<open>Time\<close>, modulo the
  range of \<^verbatim>\<open>int64\<close>, and keeps its nanoseconds and its location.
\<close>

lemma div_step:
  fixes y k :: int
  assumes "0 < k"
  shows "y div k = (y - 1) div k + (if y mod k = 0 then 1 else 0)"
proof (cases "y mod k = 0")
  case True
  have "y - 1 = k * (y div k - 1) + (k - 1)"
    using True by (simp add: algebra_simps mod_eq_0_iff_dvd)
  then have "(y - 1) div k = y div k - 1"
    using assms by (intro int_div_pos_eq[where r = "k - 1"]) auto
  with True show ?thesis by simp
next
  case False
  have "0 \<le> y mod k" "y mod k < k" using assms by simp_all
  with False have r: "0 \<le> y mod k - 1" "y mod k - 1 < k" by linarith+
  have "y - 1 = k * (y div k) + (y mod k - 1)" by simp
  then have "(y - 1) div k = y div k"
    using r by (intro int_div_pos_eq[where r = "y mod k - 1"]) auto
  with False show ?thesis by simp
qed

lemma divmod_obtain:
  fixes x k :: int
  assumes "0 < k"
  obtains q r where "x div k = q" "x = k * q + r" "0 \<le> r" "r < k"
proof
  show "x div k = x div k" by (rule refl)
  show "x = k * (x div k) + x mod k" by simp
  show "0 \<le> x mod k" "x mod k < k" using assms by simp_all
qed

lemma cut_div4:
  fixes n :: int
  assumes "0 \<le> n" "n \<le> 4"
  shows "n - n div 4 = (if n = 4 then 3 else n)"
proof (cases "n = 4")
  case True
  then show ?thesis by simp
next
  case False
  with assms have "n < 4" by simp
  with assms(1) have "n div 4 = 0" by (rule div_pos_pos_trivial)
  with False show ?thesis by simp
qed

lemma mod_digit:
  fixes k q r :: int
  assumes "0 \<le> r" "r < k"
  shows "(k * q + r + 1) mod k = 0 \<longleftrightarrow> r = k - 1"
proof (cases "r = k - 1")
  case True
  then have "k * q + r + 1 = k * (q + 1)" by (simp add: algebra_simps)
  then show ?thesis using True by simp
next
  case False
  with assms have "r + 1 < k" "0 \<le> r + 1" by simp_all
  moreover have "k * q + r + 1 = k * q + (r + 1)" by simp
  ultimately have "(k * q + r + 1) mod k = r + 1"
    by (intro int_mod_pos_eq[where q = q]) auto
  with False assms show ?thesis by simp
qed

lemma isLeap_absoluteZeroYear: "isLeap (y + absoluteZeroYear) = isLeap (y + 1)"
proof -
  have e: "y + absoluteZeroYear = y + 1 + 4 * (- 73069255600)"
    "y + absoluteZeroYear = y + 1 + 100 * (- 2922770224)"
    "y + absoluteZeroYear = y + 1 + 400 * (- 730692556)"
    unfolding absoluteZeroYear_def by simp_all
  have m: "(y + absoluteZeroYear) mod 4 = (y + 1) mod 4"
    "(y + absoluteZeroYear) mod 100 = (y + 1) mod 100"
    "(y + absoluteZeroYear) mod 400 = (y + 1) mod 400"
    by (subst e(1), rule mod_mult_self2, subst e(2), rule mod_mult_self2,
        subst e(3), rule mod_mult_self2)
  show ?thesis unfolding isLeap_def m by (rule refl)
qed

lemma daysSinceEpoch_step:
  "daysSinceEpoch (year + 1) = daysSinceEpoch year + (if isLeap year then 366 else 365)"
proof -
  define z where "z = year + 1 - absoluteZeroYear"
  define p4 where "p4 \<longleftrightarrow> z mod 4 = 0"
  define p100 where "p100 \<longleftrightarrow> z mod 100 = 0"
  define p400 where "p400 \<longleftrightarrow> z mod 400 = 0"
  define l4 :: int where "l4 = (if p4 then 1 else 0)"
  define l100 :: int where "l100 = (if p100 then 1 else 0)"
  define l400 :: int where "l400 = (if p400 then 1 else 0)"
  have s: "z div 4 = (z - 1) div 4 + l4" "z div 100 = (z - 1) div 100 + l100"
    "z div 400 = (z - 1) div 400 + l400"
    unfolding l4_def l100_def l400_def p4_def p100_def p400_def by (rule div_step, simp)+
  have d: "(400::int) = 100 * 4" "(100::int) = 4 * 25" by simp_all
  have i: "p400 \<Longrightarrow> p100" "p100 \<Longrightarrow> p4"
    unfolding p4_def p100_def p400_def
    by (metis d(1) dvd_mult_left mod_eq_0_iff_dvd, metis d(2) dvd_mult_left mod_eq_0_iff_dvd)
  have yr: "year = z - 1 + absoluteZeroYear" "z - 1 + 1 = z" unfolding z_def by simp_all
  have "isLeap year = isLeap z"
    by (subst yr(1), subst isLeap_absoluteZeroYear, subst yr(2), rule refl)
  then have L: "isLeap year \<longleftrightarrow> p4 \<and> (\<not> p100 \<or> p400)"
    unfolding p4_def p100_def p400_def isLeap_def .
  have "l4 - l100 + l400 = (if isLeap year then 1 else 0)"
    unfolding L l4_def l100_def l400_def using i by (cases p4; cases p100; cases p400; simp)
  moreover have y1: "year - absoluteZeroYear = z - 1" unfolding z_def by simp
  have "daysSinceEpoch (year + 1) = daysSinceEpoch year + 365 + (l4 - l100 + l400)"
    unfolding daysSinceEpoch_def Let_def z_def[symmetric] y1 s by (simp only: algebra_simps)
  ultimately show ?thesis by simp
qed

lemma digits_facts:
  fixes a b c e :: int
  assumes "0 \<le> b" "b \<le> 3" "0 \<le> c" "c \<le> 24" "0 \<le> e" "e \<le> 3"
  defines "y \<equiv> 400 * a + 100 * b + 4 * c + e"
  shows "daysSinceEpoch (y + absoluteZeroYear) = 146097 * a + 36524 * b + 1461 * c + 365 * e"
    and "isLeap (y + absoluteZeroYear) \<longleftrightarrow> e = 3 \<and> (c = 24 \<longrightarrow> b = 3)"
proof -
  define q4 where "q4 = 100 * a + 25 * b + c"
  define q100 where "q100 = 4 * a + b"
  define r100 where "r100 = 4 * c + e"
  define r400 where "r400 = 100 * b + 4 * c + e"
  have y: "y = 4 * q4 + e" "y = 100 * q100 + r100" "y = 400 * a + r400"
    unfolding y_def q4_def q100_def r100_def r400_def by simp_all
  have b: "0 \<le> r100" "r100 < 100" "0 \<le> r400" "r400 < 400" "e < 4"
    unfolding r100_def r400_def using assms(1-6) by linarith+
  have d4: "y div 4 = q4" using y(1) assms(5) b(5) by (rule int_div_pos_eq)
  have d100: "y div 100 = q100" using y(2) b(1,2) by (rule int_div_pos_eq)
  have d400: "y div 400 = a" using y(3) b(3,4) by (rule int_div_pos_eq)
  have "daysSinceEpoch (y + absoluteZeroYear) = 365 * y + q4 - q100 + a"
    unfolding daysSinceEpoch_def Let_def add_diff_cancel_right' d4 d100 d400 by (rule refl)
  then show "daysSinceEpoch (y + absoluteZeroYear) =
      146097 * a + 36524 * b + 1461 * c + 365 * e"
    unfolding y_def q4_def q100_def by simp
  have m4: "(y + 1) mod 4 = 0 \<longleftrightarrow> e = 3"
    unfolding y(1) using mod_digit[of e 4 q4] assms(5) b(5) by simp
  have m100: "(y + 1) mod 100 = 0 \<longleftrightarrow> r100 = 99"
    unfolding y(2) using mod_digit[of r100 100 q100] b(1,2) by simp
  have m400: "(y + 1) mod 400 = 0 \<longleftrightarrow> r400 = 399"
    unfolding y(3) using mod_digit[of r400 400 a] b(3,4) by simp
  have r: "r100 = 99 \<longleftrightarrow> c = 24 \<and> e = 3" "r400 = 399 \<longleftrightarrow> b = 3 \<and> c = 24 \<and> e = 3"
  proof -
    have c24: "c = 24" if "r100 = 99" using that assms(3-6) unfolding r100_def by linarith
    have e3: "e = 3" if "r100 = 99" using that c24[OF that] unfolding r100_def by linarith
    have b3: "b = 3" if "r400 = 399" using that assms(1-6) unfolding r400_def by linarith
    have r99: "r100 = 99" if "r400 = 399"
      using that b3[OF that] unfolding r400_def r100_def by linarith
    have "r100 = 99" if "c = 24 \<and> e = 3" using that unfolding r100_def by simp
    then show "r100 = 99 \<longleftrightarrow> c = 24 \<and> e = 3" using c24 e3 by blast
    have "r400 = 399" if "b = 3 \<and> c = 24 \<and> e = 3" using that unfolding r400_def by simp
    then show "r400 = 399 \<longleftrightarrow> b = 3 \<and> c = 24 \<and> e = 3"
      using b3 r99 c24 e3 by blast
  qed
  show "isLeap (y + absoluteZeroYear) \<longleftrightarrow> e = 3 \<and> (c = 24 \<longrightarrow> b = 3)"
    unfolding isLeap_absoluteZeroYear unfolding isLeap_def m4 m100 m400 r by blast
qed

lemma absDate_correct:
  assumes "absDate absSec = (year, yday)"
  shows "daysSinceEpoch year + yday = absSec div secondsPerDay"
    and "0 \<le> yday"
    and "yday < (if isLeap year then 366 else 365)"
proof -
  define t where "t = absSec div secondsPerDay"
  obtain a r where a: "t div 146097 = a" "t = 146097 * a + r" "0 \<le> r" "r < 146097"
    using divmod_obtain[of 146097 t] by auto
  obtain n1 s1 where n1: "r div 36524 = n1" "r = 36524 * n1 + s1" "0 \<le> s1" "s1 < 36524"
    using divmod_obtain[of 36524 r] by auto
  have n1b: "0 \<le> n1" "n1 \<le> 4" using a(3,4) n1(2,3,4) by linarith+
  define b where "b = (if n1 = 4 then 3 else n1)"
  define r1 where "r1 = r - 36524 * b"
  have b: "0 \<le> b" "b \<le> 3" "n1 - n1 div 4 = b"
    unfolding b_def using n1b cut_div4[of n1] by auto
  have r1: "0 \<le> r1" "r1 \<le> 36524" "b < 3 \<longrightarrow> r1 < 36524"
    unfolding r1_def b_def using n1b n1(2,3,4) a(3,4) by (auto split: if_splits)
  obtain c r2 where c: "r1 div 1461 = c" "r1 = 1461 * c + r2" "0 \<le> r2" "r2 < 1461"
    using divmod_obtain[of 1461 r1] by auto
  have cb: "0 \<le> c" "c \<le> 24" "c = 24 \<and> b < 3 \<longrightarrow> r2 < 1460"
    using r1 c(2,3,4) by linarith+
  obtain n4 s4 where n4: "r2 div 365 = n4" "r2 = 365 * n4 + s4" "0 \<le> s4" "s4 < 365"
    using divmod_obtain[of 365 r2] by auto
  have n4b: "0 \<le> n4" "n4 \<le> 4" using c(3,4) n4(2,3,4) by linarith+
  define e where "e = (if n4 = 4 then 3 else n4)"
  define r3 where "r3 = r2 - 365 * e"
  have e: "0 \<le> e" "e \<le> 3" "n4 - n4 div 4 = e"
    unfolding e_def using n4b cut_div4[of n4] by auto
  have r3: "0 \<le> r3" "r3 \<le> 365" "r3 = 365 \<longrightarrow> e = 3 \<and> r2 = 1460"
    unfolding r3_def e_def using n4b n4(2,3,4) c(3,4) by (auto split: if_splits)
  have t1: "t - 146097 * a = r" using a(2) by simp
  have t2: "r1 - 1461 * c = r2" using c(2) by simp
  have "absDate absSec = (400 * a + 100 * b + 4 * c + e + absoluteZeroYear, r3)"
    unfolding absDate_def Let_def t_def[symmetric] a(1) t1 n1(1) b(3) r1_def[symmetric] c(1) t2
      n4(1) e(3) r3_def[symmetric] by (rule refl)
  with assms have yr: "year = 400 * a + 100 * b + 4 * c + e + absoluteZeroYear"
    and yd: "yday = r3" by simp_all
  have "t = 146097 * a + 36524 * b + 1461 * c + 365 * e + r3"
    unfolding r3_def using a(2) c(2) r1_def by simp
  then show "daysSinceEpoch year + yday = absSec div secondsPerDay"
    unfolding yr yd t_def[symmetric]
    using digits_facts(1)[OF b(1,2) cb(1,2) e(1,2), of a] by simp
  show "0 \<le> yday" unfolding yd by (rule r3(1))
  have "isLeap year \<longleftrightarrow> e = 3 \<and> (c = 24 \<longrightarrow> b = 3)"
    unfolding yr by (rule digits_facts(2)[OF b(1,2) cb(1,2) e(1,2)])
  moreover have "r3 = 365 \<longrightarrow> e = 3 \<and> (c = 24 \<longrightarrow> b = 3)"
    using r3(3) cb(3) b(2) by auto
  ultimately show "yday < (if isLeap year then 366 else 365)"
    unfolding yd using r3(2) by auto
qed

lemma yday_month_day_regular:
  assumes "\<not> (leap \<and> yday = 31 + 29 - 1)" "0 \<le> yday" "yday < (if leap then 366 else 365)"
  defines "res \<equiv> yday_month_day leap yday"
  shows "1 \<le> fst res \<and> fst res \<le> 12 \<and> 1 \<le> snd res \<and> snd res \<le> 31 \<and>
         daysBefore ! nat (fst res - 1) + (if leap \<and> 3 \<le> fst res then 1 else 0) + (snd res - 1)
           = yday"
proof -
  define day where "day = (if leap \<and> 31 + 29 - 1 < yday then yday - 1 else yday)"
  have db: "0 \<le> day" "day < 365"
    unfolding day_def using assms(2,3) by (auto split: if_splits)
  have yd: "yday = day + (if leap \<and> 59 \<le> day then 1 else 0)"
    unfolding day_def using assms(1) by auto
  obtain q r where q: "day div 31 = q" "day = 31 * q + r" "0 \<le> r" "r < 31"
    using divmod_obtain[of 31 day] by auto
  have "0 \<le> q" "q \<le> 11" using db q(2,3,4) by linarith+
  then have "q = 0 \<or> q = 1 \<or> q = 2 \<or> q = 3 \<or> q = 4 \<or> q = 5 \<or> q = 6
    \<or> q = 7 \<or> q = 8 \<or> q = 9 \<or> q = 10 \<or> q = 11"
    by presburger
  then consider "q = 0" | "q = 1" | "q = 2" | "q = 3" | "q = 4" | "q = 5" | "q = 6"
    | "q = 7" | "q = 8" | "q = 9" | "q = 10" | "q = 11"
    by blast
  then show ?thesis
  proof cases
    case 1 with q(2,3,4) yd db show ?thesis
      unfolding res_def yday_month_day_def if_not_P[OF assms(1)] day_def[symmetric] Let_def q(1)
      by (simp add: daysBefore_def)
  next
    case 2 with q(2,3,4) yd db show ?thesis
      unfolding res_def yday_month_day_def if_not_P[OF assms(1)] day_def[symmetric] Let_def q(1)
      by (simp add: daysBefore_def)
  next
    case 3 with q(2,3,4) yd db show ?thesis
      unfolding res_def yday_month_day_def if_not_P[OF assms(1)] day_def[symmetric] Let_def q(1)
      by (simp add: daysBefore_def)
  next
    case 4 with q(2,3,4) yd db show ?thesis
      unfolding res_def yday_month_day_def if_not_P[OF assms(1)] day_def[symmetric] Let_def q(1)
      by (simp add: daysBefore_def)
  next
    case 5 with q(2,3,4) yd db show ?thesis
      unfolding res_def yday_month_day_def if_not_P[OF assms(1)] day_def[symmetric] Let_def q(1)
      by (simp add: daysBefore_def)
  next
    case 6 with q(2,3,4) yd db show ?thesis
      unfolding res_def yday_month_day_def if_not_P[OF assms(1)] day_def[symmetric] Let_def q(1)
      by (simp add: daysBefore_def)
  next
    case 7 with q(2,3,4) yd db show ?thesis
      unfolding res_def yday_month_day_def if_not_P[OF assms(1)] day_def[symmetric] Let_def q(1)
      by (simp add: daysBefore_def)
  next
    case 8 with q(2,3,4) yd db show ?thesis
      unfolding res_def yday_month_day_def if_not_P[OF assms(1)] day_def[symmetric] Let_def q(1)
      by (simp add: daysBefore_def)
  next
    case 9 with q(2,3,4) yd db show ?thesis
      unfolding res_def yday_month_day_def if_not_P[OF assms(1)] day_def[symmetric] Let_def q(1)
      by (simp add: daysBefore_def)
  next
    case 10 with q(2,3,4) yd db show ?thesis
      unfolding res_def yday_month_day_def if_not_P[OF assms(1)] day_def[symmetric] Let_def q(1)
      by (simp add: daysBefore_def)
  next
    case 11 with q(2,3,4) yd db show ?thesis
      unfolding res_def yday_month_day_def if_not_P[OF assms(1)] day_def[symmetric] Let_def q(1)
      by (simp add: daysBefore_def)
  next
    case 12 with q(2,3,4) yd db show ?thesis
      unfolding res_def yday_month_day_def if_not_P[OF assms(1)] day_def[symmetric] Let_def q(1)
      by (simp add: daysBefore_def)
  qed
qed

lemma yday_month_day_correct:
  assumes "0 \<le> yday" "yday < (if leap then 366 else 365)"
    and "yday_month_day leap yday = (m, d)"
  shows "1 \<le> m" "m \<le> 12" "1 \<le> d" "d \<le> 31"
    and "daysBefore ! nat (m - 1) + (if leap \<and> 3 \<le> m then 1 else 0) + (d - 1) = yday"
proof -
  have "1 \<le> m \<and> m \<le> 12 \<and> 1 \<le> d \<and> d \<le> 31 \<and>
    daysBefore ! nat (m - 1) + (if leap \<and> 3 \<le> m then 1 else 0) + (d - 1) = yday"
  proof (cases "leap \<and> yday = 31 + 29 - 1")
    case True
    then have "(m, d) = (2, 29)" using assms(3) unfolding yday_month_day_def by simp
    then show ?thesis using True by (simp add: daysBefore_def)
  next
    case False
    then show ?thesis
      using yday_month_day_regular[OF False assms(1,2)] unfolding assms(3) by simp
  qed
  then show "1 \<le> m" "m \<le> 12" "1 \<le> d" "d \<le> 31"
    and "daysBefore ! nat (m - 1) + (if leap \<and> 3 \<le> m then 1 else 0) + (d - 1) = yday"
    by blast+
qed

lemma int64_range: "- 9223372036854775808 \<le> int64 x" "int64 x \<le> 9223372036854775807"
proof -
  have "0 \<le> (x + 9223372036854775808) mod 18446744073709551616"
    "(x + 9223372036854775808) mod 18446744073709551616 < 18446744073709551616"
    by simp_all
  then show "- 9223372036854775808 \<le> int64 x" "int64 x \<le> 9223372036854775807"
    unfolding int64_def by linarith+
qed

lemma int64_id:
  assumes "- 9223372036854775808 \<le> x" "x \<le> 9223372036854775807"
  shows "int64 x = x"
proof -
  have "0 \<le> x + 9223372036854775808" "x + 9223372036854775808 < 18446744073709551616"
    using assms by linarith+
  then have "(x + 9223372036854775808) mod 18446744073709551616 = x + 9223372036854775808"
    by (rule mod_pos_pos_trivial)
  then show ?thesis unfolding int64_def by simp
qed

lemma int64_cycle: "int64 (x + 18446744073709551616 * k) = int64 x"
proof -
  have "x + 18446744073709551616 * k + 9223372036854775808 =
      x + 9223372036854775808 + 18446744073709551616 * k"
    by simp
  then show ?thesis unfolding int64_def by (simp only: mod_mult_self2)
qed

lemma int64_int64_add: "int64 (int64 a + b) = int64 (a + b)"
proof -
  obtain k where k: "int64 a = a + 18446744073709551616 * k"
  proof
    show "int64 a = a + 18446744073709551616 * (- ((a + 9223372036854775808) div 18446744073709551616))"
      unfolding int64_def
      using mult_div_mod_eq[of 18446744073709551616 "a + 9223372036854775808"]
      by linarith
  qed
  have "int64 a + b = a + b + 18446744073709551616 * k" unfolding k by simp
  then show ?thesis by (simp only: int64_cycle)
qed

lemma uint64_obtain:
  obtains k where "uint64 x = x + 18446744073709551616 * k"
proof
  show "uint64 x = x + 18446744073709551616 * (- (x div 18446744073709551616))"
    unfolding uint64_def using mult_div_mod_eq[of 18446744073709551616 x] by linarith
qed

lemma civil_days_parts:
  assumes "m - 1 = 12 * q + i" "0 \<le> i" "i < 12"
  shows "civil_days y m d =
    daysSinceEpoch (y + q) + daysBefore ! nat i + (if isLeap (y + q) \<and> 2 \<le> i then 1 else 0)
      + (d - 1)"
proof -
  have n: "(m - 1) div 12 = q" "(m - 1) mod 12 = i"
    using assms by (rule int_div_pos_eq, rule int_mod_pos_eq)
  have l: "3 \<le> i + 1 \<longleftrightarrow> 2 \<le> i" by linarith
  show ?thesis unfolding civil_days_def norm_def date_days_def Let_def prod.case n l by simp
qed

lemma civil_days_day: "civil_days y m (d + n) = civil_days y m d + n"
  unfolding civil_days_def norm_def date_days_def Let_def prod.case by simp

lemma month_step:
  "civil_days y m d + 28 \<le> civil_days y (m + 1) d"
  "civil_days y (m + 1) d \<le> civil_days y m d + 31"
proof -
  obtain q i where qi: "(m - 1) div 12 = q" "m - 1 = 12 * q + i" "0 \<le> i" "i < 12"
    using divmod_obtain[of 12 "m - 1"] by auto
  note cur = civil_days_parts[OF qi(2,3,4), of y d]
  have "civil_days y m d + 28 \<le> civil_days y (m + 1) d \<and>
      civil_days y (m + 1) d \<le> civil_days y m d + 31"
  proof (cases "i = 11")
    case True
    have "m + 1 - 1 = 12 * (q + 1) + 0" using qi(2) True by simp
    from civil_days_parts[OF this, of y d]
    have "civil_days y (m + 1) d = daysSinceEpoch (y + q + 1) + (d - 1)"
      by (simp add: daysBefore_def add.assoc)
    then show ?thesis
      unfolding cur True daysSinceEpoch_step by (simp add: daysBefore_def)
  next
    case False
    with qi(3,4) have i: "0 \<le> i + 1" "i + 1 < 12" by simp_all
    have "m + 1 - 1 = 12 * q + (i + 1)" using qi(2) by simp
    note nxt = civil_days_parts[OF this i, of y d]
    from False qi(3,4) have "i = 0 \<or> i = 1 \<or> i = 2 \<or> i = 3 \<or> i = 4 \<or> i = 5 \<or> i = 6
      \<or> i = 7 \<or> i = 8 \<or> i = 9 \<or> i = 10"
      by presburger
    then show ?thesis
      unfolding cur nxt by (elim disjE; simp add: daysBefore_def)
  qed
  then show "civil_days y m d + 28 \<le> civil_days y (m + 1) d"
    "civil_days y (m + 1) d \<le> civil_days y m d + 31"
    by simp_all
qed

lemma months_step:
  "civil_days y m d + 28 * int k \<le> civil_days y (m + int k) d \<and>
   civil_days y (m + int k) d \<le> civil_days y m d + 31 * int k"
proof (induction k)
  case 0
  show ?case by simp
next
  case (Suc k)
  have "m + int k + 1 = m + int (Suc k)" by simp
  with month_step[of y "m + int k" d]
  have "civil_days y (m + int k) d + 28 \<le> civil_days y (m + int (Suc k)) d"
    "civil_days y (m + int (Suc k)) d \<le> civil_days y (m + int k) d + 31"
    by simp_all
  with Suc show ?case by simp
qed

lemma civil_days_year: "civil_days (y + 1) m d = civil_days y (m + 12) d"
proof -
  obtain q i where qi: "(m - 1) div 12 = q" "m - 1 = 12 * q + i" "0 \<le> i" "i < 12"
    using divmod_obtain[of 12 "m - 1"] by auto
  have "m + 12 - 1 = 12 * (q + 1) + i" using qi(2) by simp
  note a = civil_days_parts[OF this qi(3,4), of y d]
  note b = civil_days_parts[OF qi(2,3,4), of "y + 1" d]
  have e: "y + 1 + q = y + (q + 1)" by simp
  show ?thesis unfolding a b e by (rule refl)
qed

lemma Time_Date_civil_days:
  assumes "Time_Date t = (year, month, day)"
  shows "civil_days year month day = Time_abs t div secondsPerDay"
    and "1 \<le> month" "month \<le> 12" "1 \<le> day" "day \<le> 31"
proof -
  obtain yday where a: "absDate (Time_abs t) = (year, yday)"
    and md: "yday_month_day (isLeap year) yday = (month, day)"
    using assms unfolding Time_Date_def by (auto split: prod.splits)
  note yd = absDate_correct[OF a]
  note c = yday_month_day_correct[OF yd(2,3) md]
  show "1 \<le> month" "month \<le> 12" "1 \<le> day" "day \<le> 31" by (rule c)+
  have i: "month - 1 = 12 * 0 + (month - 1)" "0 \<le> month - 1" "month - 1 < 12"
    using c(1,2) by simp_all
  have l: "2 \<le> month - 1 \<longleftrightarrow> 3 \<le> month" by linarith
  show "civil_days year month day = Time_abs t div secondsPerDay"
    unfolding civil_days_parts[OF i] l add_0_right using c(5) yd(1) by (auto split: if_splits)
qed

lemma Clock_parts:
  assumes "Clock t = (hour, minute, second)"
  shows "hour * 3600 + minute * 60 + second = Time_abs t mod secondsPerDay"
    and "0 \<le> hour" "hour < 24" "0 \<le> minute" "minute < 60" "0 \<le> second" "second < 60"
proof -
  define s0 where "s0 = Time_abs t mod secondsPerDay"
  have s0: "0 \<le> s0" "s0 < 86400" unfolding s0_def secondsPerDay_def by simp_all
  obtain h r where h: "s0 div 3600 = h" "s0 = 3600 * h + r" "0 \<le> r" "r < 3600"
    using divmod_obtain[of 3600 s0] by auto
  obtain mi s where mi: "r div 60 = mi" "r = 60 * mi + s" "0 \<le> s" "s < 60"
    using divmod_obtain[of 60 r] by auto
  have r: "s0 - h * 3600 = r" using h(2) by simp
  have s: "r - mi * 60 = s" using mi(2) by simp
  have "Clock t = (h, mi, s)"
    unfolding Clock_def absClock_def Let_def s0_def[symmetric] h(1) r mi(1) s by (rule refl)
  with assms have e: "hour = h" "minute = mi" "second = s" by simp_all
  show "hour * 3600 + minute * 60 + second = Time_abs t mod secondsPerDay"
    unfolding e s0_def[symmetric] using h(2) mi(2) by simp
  show "0 \<le> hour" "hour < 24" "0 \<le> minute" "minute < 60" "0 \<le> second" "second < 60"
    unfolding e using s0 h(2,3,4) mi(2,3,4) by linarith+
qed

lemma norm_trivial:
  assumes "0 \<le> lo" "lo < base"
  shows "norm hi lo base = (hi, lo)"
  unfolding norm_def using assms by (simp add: div_pos_pos_trivial mod_pos_pos_trivial)

lemma time_Date_normal:
  assumes "0 \<le> nsec" "nsec < 1000000000" "0 \<le> second" "second < 60"
    "0 \<le> minute" "minute < 60" "0 \<le> hour" "hour < 24"
  shows "time_Date y m d hour minute second nsec l =
    \<lparr>wall = nsec,
      ext = int64 (civil_days y m d * 86400 + (hour * 3600 + minute * 60 + second)
                   - internalToAbsolute - offset l),
      loc = l\<rparr>"
proof -
  obtain y' m' where ym: "norm y (m - 1) 12 = (y', m')" by (cases "norm y (m - 1) 12") auto
  have c: "civil_days y m d = date_days y' m' d" unfolding civil_days_def ym by simp
  have k: "absoluteToInternal + internalToUnix + unixToInternal = - internalToAbsolute"
    unfolding absoluteToInternal_def internalToUnix_def unixToInternal_def
      internalToAbsolute_def by simp
  have e: "date_days y' m' d * secondsPerDay + (hour * 3600 + minute * 60 + second) +
      (absoluteToInternal + internalToUnix) - offset l + unixToInternal =
    date_days y' m' d * 86400 + (hour * 3600 + minute * 60 + second) - internalToAbsolute
      - offset l"
    unfolding secondsPerDay_def using k by linarith
  have "time_Date y m d hour minute second nsec l =
    \<lparr>wall = nsec,
      ext = int64 (date_days y' m' d * secondsPerDay + (hour * 3600 + minute * 60 + second) +
        (absoluteToInternal + internalToUnix) - offset l + unixToInternal),
      loc = l\<rparr>"
    unfolding time_Date_def Let_def ym prod.case norm_trivial[OF assms(1,2)]
      norm_trivial[OF assms(3,4)] norm_trivial[OF assms(5,6)] norm_trivial[OF assms(7,8)]
    by (rule refl)
  then show ?thesis unfolding e c .
qed

lemma AddDate_ext:
  assumes "0 \<le> wall t" "wall t < 1000000000" "Time_Date t = (year, month, day)"
  shows "AddDate t years months days =
    \<lparr>wall = wall t,
      ext = int64 (ext t +
        (civil_days (year + years) (month + months) (day + days) - civil_days year month day)
          * 86400),
      loc = loc t\<rparr>"
proof -
  obtain hour minute second where cl: "Clock t = (hour, minute, second)"
    by (cases "Clock t") auto
  note c = Clock_parts[OF cl]
  note d = Time_Date_civil_days(1)[OF assms(3)]
  define A where "A = Time_abs t"
  define C where "C = civil_days year month day"
  define C' where "C' = civil_days (year + years) (month + months) (day + days)"
  obtain k where k: "A = ext t + offset (loc t) + internalToAbsolute + 18446744073709551616 * k"
    unfolding A_def Time_abs_def by (rule uint64_obtain)
  have "A = 86400 * (A div 86400) + A mod 86400" by simp
  then have "A mod 86400 = A - C * 86400"
    using d unfolding A_def[symmetric] C_def[symmetric] secondsPerDay_def by linarith
  then have clock: "hour * 3600 + minute * 60 + second = A - C * 86400"
    using c(1) unfolding A_def[symmetric] secondsPerDay_def by simp
  have "C' * 86400 + (A - C * 86400) - internalToAbsolute - offset (loc t) =
      ext t + (C' - C) * 86400 + 18446744073709551616 * k"
    unfolding k by (simp add: algebra_simps)
  then have i: "int64 (C' * 86400 + (hour * 3600 + minute * 60 + second) - internalToAbsolute
        - offset (loc t)) = int64 (ext t + (C' - C) * 86400)"
    unfolding clock by (simp only: int64_cycle)
  have "AddDate t years months days =
      time_Date (year + years) (month + months) (day + days) hour minute second (wall t) (loc t)"
    unfolding AddDate_def assms(3) cl by simp
  then show ?thesis
    unfolding time_Date_normal[OF assms(1,2) c(6,7) c(4,5) c(2,3)] C'_def[symmetric] i
    unfolding C'_def C_def .
qed

section \<open>Advancing a date\<close>

text \<open>
  Every advance of \<open>GetNextDate\<close> adds between 1 and 372 days to the seconds, modulo the
  range of \<^verbatim>\<open>int64\<close>. From a date that is \<open>in_range\<close> the sum does not wrap around, and
  the next date is strictly later.
\<close>

lemma frequencyDeltas_cases:
  assumes "frequencyDeltas f = Some delta"
  shows "delta = (\<lambda>t. AddDate t 0 0 1) \<or> delta = (\<lambda>t. AddDate t 0 0 7) \<or>
         delta = (\<lambda>t. AddDate t 0 1 0) \<or> delta = (\<lambda>t. AddDate t 0 3 0) \<or>
         delta = (\<lambda>t. AddDate t 0 6 0) \<or> delta = (\<lambda>t. AddDate t 1 0 0)"
  using assms unfolding frequencyDeltas_def by (auto split: if_splits)

lemma AddDate_months_days:
  assumes "0 \<le> wall t" "wall t < 1000000000"
  shows "\<exists>k. 28 * int j + n \<le> k \<and> k \<le> 31 * int j + n \<and>
    AddDate t 0 (int j) n = \<lparr>wall = wall t, ext = int64 (ext t + k * 86400), loc = loc t\<rparr>"
proof -
  obtain year month day where c: "Time_Date t = (year, month, day)"
    by (cases "Time_Date t") auto
  define k where "k = civil_days year (month + int j) (day + n) - civil_days year month day"
  have "AddDate t 0 (int j) n = \<lparr>wall = wall t, ext = int64 (ext t + k * 86400), loc = loc t\<rparr>"
    unfolding k_def using AddDate_ext[OF assms c, of 0 "int j" n] by simp
  moreover have "28 * int j + n \<le> k \<and> k \<le> 31 * int j + n"
    unfolding k_def civil_days_day using months_step[of year month day j] by linarith
  ultimately show ?thesis by blast
qed

lemma AddDate_year:
  assumes "0 \<le> wall t" "wall t < 1000000000"
  shows "\<exists>k. 336 \<le> k \<and> k \<le> 372 \<and>
    AddDate t 1 0 0 = \<lparr>wall = wall t, ext = int64 (ext t + k * 86400), loc = loc t\<rparr>"
proof -
  obtain year month day where c: "Time_Date t = (year, month, day)"
    by (cases "Time_Date t") auto
  define k where "k = civil_days year (month + int 12) day - civil_days year month day"
  have "AddDate t 1 0 0 = \<lparr>wall = wall t, ext = int64 (ext t + k * 86400), loc = loc t\<rparr>"
    unfolding k_def using AddDate_ext[OF assms c, of 1 0 0] civil_days_year[of year month day]
    by simp
  moreover have "336 \<le> k \<and> k \<le> 372"
    unfolding k_def using months_step[of year month day 12] by linarith
  ultimately show ?thesis by blast
qed

lemma GetNextDate_step:
  assumes "0 \<le> wall t" "wall t < 1000000000" "GetNextDate t f = Inr n"
  shows "\<exists>k. 1 \<le> k \<and> k \<le> 372 \<and>
    n = \<lparr>wall = wall t, ext = int64 (ext t + k * 86400), loc = loc t\<rparr>"
proof -
  obtain delta where f: "frequencyDeltas f = Some delta" and n: "n = delta t"
    using assms(3) unfolding GetNextDate_def by (auto split: option.splits)
  have r: "\<exists>k. 1 \<le> k \<and> k \<le> 372 \<and>
      AddDate t 0 (int j) d = \<lparr>wall = wall t, ext = int64 (ext t + k * 86400), loc = loc t\<rparr>"
    if "1 \<le> 28 * int j + d" "31 * int j + d \<le> 372" for j d
  proof -
    from AddDate_months_days[OF assms(1,2), of j d] obtain k
      where k: "28 * int j + d \<le> k" "k \<le> 31 * int j + d"
        "AddDate t 0 (int j) d = \<lparr>wall = wall t, ext = int64 (ext t + k * 86400), loc = loc t\<rparr>"
      by blast
    from k(1,2) that have "1 \<le> k" "k \<le> 372" by linarith+
    with k(3) show ?thesis by blast
  qed
  have y: "\<exists>k. 1 \<le> k \<and> k \<le> 372 \<and>
      AddDate t 1 0 0 = \<lparr>wall = wall t, ext = int64 (ext t + k * 86400), loc = loc t\<rparr>"
  proof -
    from AddDate_year[OF assms(1,2)] obtain k where k: "336 \<le> k" "k \<le> 372"
      "AddDate t 1 0 0 = \<lparr>wall = wall t, ext = int64 (ext t + k * 86400), loc = loc t\<rparr>"
      by blast
    from k(1) have "1 \<le> k" by linarith
    with k(2,3) show ?thesis by blast
  qed
  from frequencyDeltas_cases[OF f] show ?thesis
    unfolding n using r[of 0 1] r[of 0 7] r[of 1 0] r[of 3 0] r[of 6 0] y
    by (elim disjE) simp_all
qed

lemma GetNextDate_wellformed:
  assumes "wellformed t" "GetNextDate t f = Inr n"
  shows "wellformed n" "wall n = wall t" "loc n = loc t"
proof -
  from assms(1) have w: "0 \<le> wall t" "wall t < 1000000000" unfolding wellformed_def by simp_all
  from GetNextDate_step[OF w assms(2)] obtain k
    where n: "n = \<lparr>wall = wall t, ext = int64 (ext t + k * 86400), loc = loc t\<rparr>" by blast
  show "wall n = wall t" "loc n = loc t" unfolding n by simp_all
  show "wellformed n"
    unfolding wellformed_def n using w int64_range[of "ext t + k * 86400"] by simp
qed

lemma GetNextDate_in_range:
  assumes "in_range t" "GetNextDate t f = Inr n"
  shows "ext t + 86400 \<le> ext n" "ext n \<le> ext t + 32140800"
proof -
  from assms(1) have w: "0 \<le> wall t" "wall t < 1000000000"
    and e: "- 9223372036854775808 \<le> ext t" "ext t \<le> 9223372036822635007"
    unfolding in_range_def wellformed_def by simp_all
  from GetNextDate_step[OF w assms(2)] obtain k where k: "1 \<le> k" "k \<le> 372"
    and n: "n = \<lparr>wall = wall t, ext = int64 (ext t + k * 86400), loc = loc t\<rparr>" by blast
  have "int64 (ext t + k * 86400) = ext t + k * 86400"
    using e k by (intro int64_id) linarith+
  then have "ext n = ext t + k * 86400" unfolding n by simp
  with k show "ext t + 86400 \<le> ext n" "ext n \<le> ext t + 32140800" by linarith+
qed

lemma GetNextDate_increases:
  assumes "in_range t" "GetNextDate t f = Inr n"
  shows "Before t n"
  using GetNextDate_in_range(1)[OF assms] by simp

lemma IsValidFrequency_GetNextDate:
  "IsValidFrequency f \<Longrightarrow> \<exists>n. GetNextDate c f = Inr n"
  unfolding IsValidFrequency_def GetNextDate_def by (auto split: option.splits)

section \<open>Invariants and termination of the loops\<close>

text \<open>
  The rules below carry an invariant of the current date and an invariant of the map
  through the expansion of one event and through the loop over all events, whenever
  these return. The loops return when the window ends at a date that is \<open>in_range\<close>:
  every advance is then strictly later, which bounds the number of iterations.
\<close>

lemma wellformed_zero_Time: "wellformed zero_Time"
  unfolding wellformed_def zero_Time_def by simp

lemma in_range_before:
  assumes "in_range b" "wellformed c" "\<not> After c b"
  shows "in_range c"
  using assms unfolding in_range_def by auto

lemma GetFirstDate_loop_partial:
  assumes "GetFirstDate_loop c f b = Some r"
  shows "(snd r \<longrightarrow> \<not> Before (fst r) b) \<and> (wellformed c \<longrightarrow> wellformed (fst r))"
proof (rule GetFirstDate_loop.raw_induct[where
      P = "\<lambda>c f b r. (snd r \<longrightarrow> \<not> Before (fst r) b) \<and> (wellformed c \<longrightarrow> wellformed (fst r))",
      OF _ assms])
  fix loop :: "Time \<Rightarrow> Frequency \<Rightarrow> Time \<Rightarrow> (Time \<times> bool) option" and c f b r
  assume IH: "\<And>c f b r. loop c f b = Some r \<Longrightarrow>
      (snd r \<longrightarrow> \<not> Before (fst r) b) \<and> (wellformed c \<longrightarrow> wellformed (fst r))"
    and eq: "(if Before c b then
        (case GetNextDate c f of
           Inl err \<Rightarrow> Some (zero_Time, False)
         | Inr nextDate \<Rightarrow> loop nextDate f b)
      else Some (c, True)) = Some r"
  show "(snd r \<longrightarrow> \<not> Before (fst r) b) \<and> (wellformed c \<longrightarrow> wellformed (fst r))"
  proof (cases "Before c b")
    case False
    with eq have "r = (c, True)" by simp
    with False show ?thesis by simp
  next
    case True
    show ?thesis
    proof (cases "GetNextDate c f")
      case (Inl err)
      with True eq have "r = (zero_Time, False)" by simp
      then show ?thesis using wellformed_zero_Time by simp
    next
      case (Inr n)
      with True eq have "loop n f b = Some r" by simp
      from IH[OF this] GetNextDate_wellformed(1)[OF _ Inr] show ?thesis by blast
    qed
  qed
qed

lemma GetFirstDate_loop_returns:
  assumes "in_range b" "wellformed c"
  shows "\<exists>d ok. GetFirstDate_loop c f b = Some (d, ok) \<and> (IsValidFrequency f \<longrightarrow> ok)"
  using assms(2)
proof (induction "nat (ext b + 1 - ext c)" arbitrary: c rule: less_induct)
  case less
  show ?case
  proof (cases "Before c b")
    case False
    then show ?thesis by (subst GetFirstDate_loop.simps) auto
  next
    case True
    show ?thesis
    proof (cases "GetNextDate c f")
      case (Inl err)
      with IsValidFrequency_GetNextDate[of f c] have "\<not> IsValidFrequency f" by auto
      with True Inl show ?thesis by (subst GetFirstDate_loop.simps) auto
    next
      case (Inr n)
      from True have "\<not> After c b" by auto
      from in_range_before[OF assms(1) less.prems this] have "in_range c" .
      from GetNextDate_in_range(1)[OF this Inr] True
      have "nat (ext b + 1 - ext n) < nat (ext b + 1 - ext c)" by auto
      moreover have "wellformed n" using GetNextDate_wellformed(1)[OF less.prems Inr] .
      ultimately obtain d ok
        where "GetFirstDate_loop n f b = Some (d, ok) \<and> (IsValidFrequency f \<longrightarrow> ok)"
        using less.hyps[of n] by blast
      with True Inr show ?thesis by (subst GetFirstDate_loop.simps) auto
    qed
  qed
qed

lemma GetFirstDate_wellformed:
  assumes "GetFirstDate e b en = Some (c, True)" "wellformed (StartDate e)" "wellformed b"
  shows "wellformed c"
    and "\<not> Before c b \<or> (Frequency e = '''' \<and> c = StartDate e)"
proof -
  have "wellformed c \<and> (\<not> Before c b \<or> (Frequency e = '''' \<and> c = StartDate e))"
  proof (cases "Frequency e = '''' \<or> (\<not> IsZero (EndDate e) \<and> Equal (StartDate e) (EndDate e))")
    case True
    with assms show ?thesis unfolding GetFirstDate_def Let_def by (auto split: if_splits)
  next
    case False
    show ?thesis
    proof (cases "Frequency e = Daily")
      case True
      with assms False show ?thesis
        unfolding GetFirstDate_def Let_def by (auto split: if_splits)
    next
      case nd: False
      from assms(1) False nd
      have "GetFirstDate_loop (StartDate e) (Frequency e) b = Some (c, True)"
        unfolding GetFirstDate_def Let_def by (auto split: if_splits)
      from GetFirstDate_loop_partial[OF this] assms(2) show ?thesis by simp
    qed
  qed
  then show "wellformed c" "\<not> Before c b \<or> (Frequency e = '''' \<and> c = StartDate e)"
    by blast+
qed

lemma GetFirstDate_returns:
  assumes "in_range b" "wellformed (StartDate e)"
  shows "\<exists>d ok. GetFirstDate e b en = Some (d, ok)"
  using GetFirstDate_loop_returns[OF assms, of "Frequency e"]
  unfolding GetFirstDate_def Let_def by auto

lemma expand_event_rule:
  assumes "expand_event e en c m = Some m'"
    and "J c" "I m"
    and date: "\<And>d n. J d \<Longrightarrow> \<not> After d en \<Longrightarrow> Frequency e \<noteq> '''' \<Longrightarrow>
           GetNextDate d (Frequency e) = Inr n \<Longrightarrow> J n"
    and map: "\<And>d m. J d \<Longrightarrow> \<not> After d en \<Longrightarrow> I m \<Longrightarrow>
           I (cfMap_append d \<lparr>ItemName = Name e, ItemValue = Value e\<rparr> m)"
  shows "I m'"
proof -
  have "e' = e \<and> en' = en \<and> J c \<and> I m \<longrightarrow> I m'"
    if "expand_event e' en' c m = Some m'" for e' en'
  proof (rule expand_event.raw_induct[where
        P = "\<lambda>e' en' c m m'. e' = e \<and> en' = en \<and> J c \<and> I m \<longrightarrow> I m'", OF _ that])
    fix expand :: "'a Event \<Rightarrow> Time \<Rightarrow> Time \<Rightarrow> 'a cfMap \<Rightarrow> 'a cfMap option"
      and e' en' c m m'
    assume IH: "\<And>e' en' c m m'. expand e' en' c m = Some m' \<Longrightarrow>
        e' = e \<and> en' = en \<and> J c \<and> I m \<longrightarrow> I m'"
      and eq: "(if After c en' then Some m
        else if \<not> IsZero (EndDate e') \<and> Before (EndDate e') c then Some m
        else
          let item = \<lparr>ItemName = Name e', ItemValue = Value e'\<rparr>;
              cfMap = cfMap_append c item m
          in if Frequency e' = '''' then Some cfMap
             else (case GetNextDate c (Frequency e') of
                     Inl err \<Rightarrow> Some cfMap
                   | Inr nextDate \<Rightarrow> expand e' en' nextDate cfMap)) = Some m'"
    show "e' = e \<and> en' = en \<and> J c \<and> I m \<longrightarrow> I m'"
    proof
      assume a: "e' = e \<and> en' = en \<and> J c \<and> I m"
      define m1 where "m1 = cfMap_append c \<lparr>ItemName = Name e, ItemValue = Value e\<rparr> m"
      show "I m'"
      proof (cases "After c en \<or> (\<not> IsZero (EndDate e) \<and> Before (EndDate e) c)")
        case True
        with eq a have "m' = m" by (auto split: if_splits)
        with a show ?thesis by simp
      next
        case stay: False
        with a have m1: "I m1" unfolding m1_def by (intro map) auto
        show ?thesis
        proof (cases "Frequency e = ''''")
          case True
          with stay eq a have "m' = m1" unfolding m1_def by (auto simp: Let_def)
          with m1 show ?thesis by simp
        next
          case False
          show ?thesis
          proof (cases "GetNextDate c (Frequency e)")
            case (Inl err)
            with stay False eq a have "m' = m1" unfolding m1_def by (auto simp: Let_def)
            with m1 show ?thesis by simp
          next
            case (Inr n)
            with stay False eq a have "expand e en n m1 = Some m'"
              unfolding m1_def by (auto simp: Let_def)
            moreover have "J n" using date[of c n] a stay False Inr by auto
            ultimately show ?thesis using IH[of e en n m1 m'] m1 by simp
          qed
        qed
      qed
    qed
  qed
  from this[OF assms(1)] assms(2,3) show ?thesis by simp
qed

lemma expand_event_returns:
  assumes "in_range en" "wellformed c"
  shows "\<exists>m'. expand_event e en c m = Some m'"
  using assms(2)
proof (induction "nat (ext en + 1 - ext c)" arbitrary: c m rule: less_induct)
  case less
  define m1 where "m1 = cfMap_append c \<lparr>ItemName = Name e, ItemValue = Value e\<rparr> m"
  show ?case
  proof (cases "After c en \<or> (\<not> IsZero (EndDate e) \<and> Before (EndDate e) c)")
    case True
    then show ?thesis by (subst expand_event.simps) auto
  next
    case stay: False
    show ?thesis
    proof (cases "Frequency e = ''''")
      case True
      with stay show ?thesis by (subst expand_event.simps) (auto simp: Let_def)
    next
      case False
      show ?thesis
      proof (cases "GetNextDate c (Frequency e)")
        case (Inl err)
        with stay False show ?thesis by (subst expand_event.simps) (auto simp: Let_def)
      next
        case (Inr n)
        from stay have na: "\<not> After c en" by auto
        from in_range_before[OF assms(1) less.prems this] have "in_range c" .
        from GetNextDate_in_range(1)[OF this Inr] na
        have "nat (ext en + 1 - ext n) < nat (ext en + 1 - ext c)" by auto
        moreover have "wellformed n" using GetNextDate_wellformed(1)[OF less.prems Inr] .
        ultimately obtain m' where "expand_event e en n m1 = Some m'"
          using less.hyps[of n m1] by blast
        with stay False Inr show ?thesis
          by (subst expand_event.simps) (auto simp: Let_def m1_def)
      qed
    qed
  qed
qed

lemma process_event_rule:
  assumes "process_event b en e m = Some m'" "I m"
    and first: "\<And>c. Value e \<noteq> 0 \<Longrightarrow> GetFirstDate e b en = Some (c, True) \<Longrightarrow> J c"
    and date: "\<And>d n. J d \<Longrightarrow> \<not> After d en \<Longrightarrow> Frequency e \<noteq> '''' \<Longrightarrow>
           GetNextDate d (Frequency e) = Inr n \<Longrightarrow> J n"
    and map: "\<And>d m. Value e \<noteq> 0 \<Longrightarrow> J d \<Longrightarrow> \<not> After d en \<Longrightarrow> I m \<Longrightarrow>
           I (cfMap_append d \<lparr>ItemName = Name e, ItemValue = Value e\<rparr> m)"
  shows "I m'"
proof (cases "Value e = 0")
  case True
  with assms(1,2) show ?thesis unfolding process_event_def by simp
next
  case False
  from assms(1) False obtain c ok where g: "GetFirstDate e b en = Some (c, ok)"
    unfolding process_event_def by (auto split: option.splits)
  show ?thesis
  proof (cases ok)
    case False
    with g assms(1,2) \<open>Value e \<noteq> 0\<close> show ?thesis unfolding process_event_def by simp
  next
    case True
    with g assms(1) False have x: "expand_event e en c m = Some m'"
      unfolding process_event_def by simp
    from g True have "GetFirstDate e b en = Some (c, True)" by simp
    from first[OF False this] have "J c" .
    from x this assms(2) show ?thesis
    proof (rule expand_event_rule)
      fix d n
      assume "J d" "\<not> After d en" "Frequency e \<noteq> ''''" "GetNextDate d (Frequency e) = Inr n"
      then show "J n" by (rule date)
    next
      fix d m
      assume "J d" "\<not> After d en" "I m"
      with False show "I (cfMap_append d \<lparr>ItemName = Name e, ItemValue = Value e\<rparr> m)"
        by (intro map)
    qed
  qed
qed

lemma process_event_returns:
  assumes "in_range b" "in_range en" "wellformed (StartDate e)"
  shows "\<exists>m'. process_event b en e m = Some m'"
proof (cases "Value e = 0")
  case True
  then show ?thesis unfolding process_event_def by simp
next
  case False
  obtain c ok where g: "GetFirstDate e b en = Some (c, ok)"
    using GetFirstDate_returns[OF assms(1,3)] by blast
  show ?thesis
  proof (cases ok)
    case False
    with g \<open>Value e \<noteq> 0\<close> show ?thesis unfolding process_event_def by simp
  next
    case True
    from assms(1) have wb: "wellformed b" unfolding in_range_def by simp
    from g True have "GetFirstDate e b en = Some (c, True)" by simp
    from GetFirstDate_wellformed(1)[OF this assms(3) wb] have "wellformed c" .
    from expand_event_returns[OF assms(2) this, of e m] g True False
    show ?thesis unfolding process_event_def by simp
  qed
qed

lemma events_loop_rule:
  assumes "events_loop b en evs m = Some m'" "I m"
    and first: "\<And>e c. e \<in> set evs \<Longrightarrow> Value e \<noteq> 0 \<Longrightarrow>
           GetFirstDate e b en = Some (c, True) \<Longrightarrow> J e c"
    and date: "\<And>e d n. e \<in> set evs \<Longrightarrow> J e d \<Longrightarrow> \<not> After d en \<Longrightarrow> Frequency e \<noteq> '''' \<Longrightarrow>
           GetNextDate d (Frequency e) = Inr n \<Longrightarrow> J e n"
    and map: "\<And>e d m. e \<in> set evs \<Longrightarrow> Value e \<noteq> 0 \<Longrightarrow> J e d \<Longrightarrow> \<not> After d en \<Longrightarrow> I m \<Longrightarrow>
           I (cfMap_append d \<lparr>ItemName = Name e, ItemValue = Value e\<rparr> m)"
  shows "I m'"
  using assms
proof (induction evs arbitrary: m)
  case Nil
  then show ?case by simp
next
  case (Cons e evs)
  from Cons.prems(1) obtain m1 where m1: "process_event b en e m = Some m1"
    "events_loop b en evs m1 = Some m'"
    by (auto split: option.splits)
  have "I m1"
  proof (rule process_event_rule[of b en e m m1 I "J e", OF m1(1) Cons.prems(2)])
    fix c
    assume "Value e \<noteq> 0" "GetFirstDate e b en = Some (c, True)"
    then show "J e c" using Cons.prems(3)[of e c] by simp
  next
    fix d n
    assume "J e d" "\<not> After d en" "Frequency e \<noteq> ''''" "GetNextDate d (Frequency e) = Inr n"
    then show "J e n" using Cons.prems(4)[of e d n] by simp
  next
    fix d m
    assume "Value e \<noteq> 0" "J e d" "\<not> After d en" "I m"
    then show "I (cfMap_append d \<lparr>ItemName = Name e, ItemValue = Value e\<rparr> m)"
      using Cons.prems(5)[of e d m] by simp
  qed
  show ?case
  proof (rule Cons.IH[of m1, OF m1(2) \<open>I m1\<close>])
    fix e' c
    assume "e' \<in> set evs" "Value e' \<noteq> 0" "GetFirstDate e' b en = Some (c, True)"
    then show "J e' c" using Cons.prems(3)[of e' c] by simp
  next
    fix e' d n
    assume "e' \<in> set evs" "J e' d" "\<not> After d en" "Frequency e' \<noteq> ''''"
      "GetNextDate d (Frequency e') = Inr n"
    then show "J e' n" using Cons.prems(4)[of e' d n] by simp
  next
    fix e' d m
    assume "e' \<in> set evs" "Value e' \<noteq> 0" "J e' d" "\<not> After d en" "I m"
    then show "I (cfMap_append d \<lparr>ItemName = Name e', ItemValue = Value e'\<rparr> m)"
      using Cons.prems(5)[of e' d m] by simp
  qed
qed

lemma events_loop_returns:
  assumes "in_range b" "in_range en" "list_all (\<lambda>event. wellformed (StartDate event)) evs"
  shows "\<exists>m'. events_loop b en evs m = Some m'"
  using assms(3)
proof (induction evs arbitrary: m)
  case Nil
  show ?case by simp
next
  case (Cons e evs)
  then have w: "wellformed (StartDate e)"
    and r: "list_all (\<lambda>event. wellformed (StartDate event)) evs" by simp_all
  from process_event_returns[OF assms(1,2) w, of m] obtain m1
    where m1: "process_event b en e m = Some m1" by blast
  from Cons.IH[OF r, of m1] m1 show ?case by simp
qed

section \<open>The map and the runtime\<close>

lemma cfMap_append_keys:
  "distinct (map fst m) \<Longrightarrow> distinct (map fst (cfMap_append d item m))"
  unfolding cfMap_append_def by (rule distinct_update)

lemma cfMap_append_length: "length m \<le> length (cfMap_append d item m)"
proof -
  have "length al \<le> length (AList.update k v al)" for k :: Time and v :: "'a CashflowItem list"
    and al by (induction al) auto
  then show ?thesis unfolding cfMap_append_def .
qed

lemma set_update_cases:
  "(k', v') \<in> set (AList.update k v al) \<Longrightarrow> (k', v') = (k, v) \<or> (k', v') \<in> set al"
  by (induction al) (auto split: if_splits)

lemma cfMap_get_cases: "cfMap_get m d = [] \<or> (d, cfMap_get m d) \<in> set m"
  unfolding cfMap_get_def by (auto split: option.splits dest: map_of_SomeD)

lemma cfMap_append_cases:
  assumes "(d', items) \<in> set (cfMap_append d item m)"
  shows "(d', items) \<in> set m \<or>
         (items = [item] \<or> (\<exists>items'. (d, items') \<in> set m \<and> items = items' @ [item]))"
proof -
  from set_update_cases[OF assms[unfolded cfMap_append_def]]
  show ?thesis
  proof
    assume "(d', items) = (d, cfMap_get m d @ [item])"
    with cfMap_get_cases[of m d] show ?thesis by auto
  next
    assume "(d', items) \<in> set m"
    then show ?thesis by blast
  qed
qed

lemma cfMap_append_dates:
  "fst ` set (cfMap_append d item m) \<subseteq> insert d (fst ` set m)"
  unfolding cfMap_append_def using set_update_cases by fastforce

lemma items_from_append:
  assumes "items_from evs m" "e \<in> set evs" "Value e \<noteq> 0"
  shows "items_from evs (cfMap_append d \<lparr>ItemName = Name e, ItemValue = Value e\<rparr> m)"
  unfolding items_from_def
proof (clarify)
  fix d' items
  assume a: "(d', items) \<in> set (cfMap_append d \<lparr>ItemName = Name e, ItemValue = Value e\<rparr> m)"
  from cfMap_append_cases[OF a] assms
  show "items \<noteq> [] \<and>
        (\<forall>item \<in> set items. \<exists>event \<in> set evs.
           Value event \<noteq> 0 \<and> item = \<lparr>ItemName = Name event, ItemValue = Value event\<rparr>)"
    unfolding items_from_def by fastforce
qed

lemma events_loop_invariants:
  assumes "events_loop b en evs [] = Some m"
  shows "distinct (map fst m)" "items_from evs m" "\<forall>d \<in> fst ` set m. \<not> After d en"
proof -
  define I :: "'a cfMap \<Rightarrow> bool" where
    "I = (\<lambda>m. distinct (map fst m) \<and> items_from evs m \<and> (\<forall>d \<in> fst ` set m. \<not> After d en))"
  have "I m"
  proof (rule events_loop_rule[of b en evs "[]" m I "\<lambda>e c. True", OF assms])
    show "I []" unfolding I_def items_from_def by simp
  next
    fix e :: "'a Event" and d :: Time and m
    assume a: "e \<in> set evs" "Value e \<noteq> 0" "\<not> After d en" "I m"
    define m1 where "m1 = cfMap_append d \<lparr>ItemName = Name e, ItemValue = Value e\<rparr> m"
    have "distinct (map fst m1)" "items_from evs m1"
      unfolding m1_def using a unfolding I_def by (simp_all add: cfMap_append_keys items_from_append)
    moreover have "\<not> After d' en" if "d' \<in> fst ` set m1" for d'
    proof -
      from that have "d' = d \<or> d' \<in> fst ` set m"
        unfolding m1_def using cfMap_append_dates by fastforce
      with a(3,4) show ?thesis unfolding I_def by blast
    qed
    ultimately show "I (cfMap_append d \<lparr>ItemName = Name e, ItemValue = Value e\<rparr> m)"
      unfolding I_def m1_def by blast
  qed simp_all
  then show "distinct (map fst m)" "items_from evs m" "\<forall>d \<in> fst ` set m. \<not> After d en"
    unfolding I_def by blast+
qed

lemma Date_cfMap_entries: "map Date (cfMap_entries m) = map fst m"
  unfolding cfMap_entries_def by (induction m) auto

lemma cfMap_entries_fields:
  "cf \<in> set (cfMap_entries m) \<Longrightarrow>
     (Date cf, Items cf) \<in> set m \<and> Cashflow cf = items_total (Items cf) \<and> Balance cf = 0"
  unfolding cfMap_entries_def by auto

lemma items_total_foldl: "items_total items = foldl (+) 0 (map ItemValue items)"
  unfolding items_total_def by (simp add: foldl_map)

lemma runtime_entries:
  assumes "runtime_ok rt"
  shows "mset (sortCashflowsByDate rt (cfMap_entries (range_order rt m))) = mset (cfMap_entries m)"
proof -
  have "mset (cfMap_entries (range_order rt m)) = mset (cfMap_entries m)"
    unfolding cfMap_entries_def mset_map using assms unfolding runtime_ok_def by simp
  then show ?thesis unfolding sortCashflowsByDate_def using assms unfolding runtime_ok_def by simp
qed

lemma runtime_sorted:
  assumes "runtime_ok rt"
  shows "sorted_wrt (\<lambda>a b. \<not> Before (Date b) (Date a)) (sortCashflowsByDate rt cashflows)"
  unfolding sortCashflowsByDate_def using assms unfolding runtime_ok_def by simp

lemma mset_two:
  assumes "mset xs = {#a, b#}"
  shows "xs = [a, b] \<or> xs = [b, a]"
proof -
  from assms have "size (mset xs) = 2" by simp
  then have "length xs = 2" by simp
  then obtain x y where xs: "xs = [x, y]"
    by (metis (no_types, opaque_lifting) One_nat_def Suc_1 Suc_length_conv length_0_conv)
  with assms have "{#x, y#} = {#a, b#}" by simp
  then have "(x = a \<and> y = b) \<or> (x = b \<and> y = a)"
    by (auto simp: add_eq_conv_ex)
  with xs show ?thesis by auto
qed

lemma set_insert_by_date: "set (insert_by_date cf xs) = insert cf (set xs)"
  by (induction xs) auto

lemma mset_insert_by_date: "mset (insert_by_date cf xs) = add_mset cf (mset xs)"
  by (induction xs) auto

lemma Before_trans: "Before a b \<Longrightarrow> Before b c \<Longrightarrow> Before a c"
  by auto

lemma Before_asym: "Before a b \<Longrightarrow> \<not> Before b a"
  by auto

lemma sorted_insert_by_date:
  assumes "sorted_wrt (\<lambda>a b. \<not> Before (Date b) (Date a)) xs"
  shows "sorted_wrt (\<lambda>a b. \<not> Before (Date b) (Date a)) (insert_by_date cf xs)"
proof -
  define R where "R = (\<lambda>(a :: 'a Cashflow) (b :: 'a Cashflow). \<not> Before (Date b) (Date a))"
  have asym: "R a b" if "Before (Date a) (Date b)" for a b
    unfolding R_def using Before_asym[OF that] .
  have trans: "R a c" if "Before (Date a) (Date b)" "R b c" for a b c
    unfolding R_def using Before_trans[OF _ that(1), of "Date c"] that(2)[unfolded R_def]
    by blast
  have total: "R b a" if "\<not> Before (Date a) (Date b)" for a b
    unfolding R_def using that .
  have main: "sorted_wrt R (insert_by_date cf xs)" if "sorted_wrt R xs"
    using that
  proof (induction xs)
    case Nil
    show ?case by simp
  next
    case (Cons x xs)
    from Cons.prems have s: "\<forall>y \<in> set xs. R x y" "sorted_wrt R xs" by simp_all
    show ?case
    proof (cases "Before (Date cf) (Date x)")
      case True
      have "R cf x" using asym[OF True] .
      moreover have "\<forall>y \<in> set xs. R cf y" using trans[OF True] s(1) by blast
      ultimately have "sorted_wrt R (cf # x # xs)" using Cons.prems by simp
      then show ?thesis unfolding insert_by_date.simps(2) if_P[OF True] .
    next
      case False
      have "R x cf" using total[OF False] .
      with s(1) have "\<forall>y \<in> set (insert_by_date cf xs). R x y"
        by (simp add: set_insert_by_date)
      with Cons.IH[OF s(2)] have "sorted_wrt R (x # insert_by_date cf xs)" by simp
      then show ?thesis unfolding insert_by_date.simps(2) if_not_P[OF False] .
    qed
  qed
  from main[unfolded R_def, OF assms] show ?thesis .
qed

lemma insertion_sort_foldl:
  assumes "sorted_wrt (\<lambda>a b. \<not> Before (Date b) (Date a)) acc"
  shows "mset (foldl (\<lambda>sorted cf. insert_by_date cf sorted) acc xs) = mset acc + mset xs \<and>
    sorted_wrt (\<lambda>a b. \<not> Before (Date b) (Date a))
      (foldl (\<lambda>sorted cf. insert_by_date cf sorted) acc xs)"
  using assms
proof (induction xs arbitrary: acc)
  case Nil
  then show ?case by simp
next
  case (Cons x xs)
  from Cons.IH[OF sorted_insert_by_date[OF Cons.prems, of x]]
  show ?case by (simp add: mset_insert_by_date)
qed

lemma runtime_ok_example_runtime: "runtime_ok example_runtime"
proof -
  have r: "range_order example_runtime = rev" "sort_Slice example_runtime = insertion_sort"
    unfolding example_runtime_def by simp_all
  have "mset (insertion_sort cashflows) = mset cashflows \<and>
      sorted_wrt (\<lambda>a b. \<not> Before (Date b) (Date a)) (insertion_sort cashflows)"
    for cashflows :: "'a Cashflow list"
    unfolding insertion_sort_def using insertion_sort_foldl[of "[]" cashflows] by simp
  then show ?thesis unfolding runtime_ok_def r by simp
qed

section \<open>Dates at the end of the range\<close>




lemma last_june_value: "last_june = \<lparr>wall = 0, ext = 9223372036839686400, loc = UTC\<rparr>"
  by code_simp

lemma last_june_next:
  "GetNextDate \<lparr>wall = 0, ext = 9223372036839686400, loc = UTC\<rparr> Annual =
     Inr \<lparr>wall = 0, ext = - 9223372036838242816, loc = UTC\<rparr>"
  "GetNextDate \<lparr>wall = 0, ext = - 9223372036838242816, loc = UTC\<rparr> Annual =
     Inr \<lparr>wall = 0, ext = - 9223372036806706816, loc = UTC\<rparr>"
  by code_simp+



lemma expand_event_last_june:
  assumes "expand_event last_june_event last_june last_june [] = Some m"
  shows "2 \<le> length m"
proof -
  define item :: "int CashflowItem" where "item = \<lparr>ItemName = ''Fee'', ItemValue = 100\<rparr>"
  define L where "L = \<lparr>wall = 0, ext = 9223372036839686400, loc = UTC\<rparr>"
  define N1 where "N1 = \<lparr>wall = 0, ext = - 9223372036838242816, loc = UTC\<rparr>"
  define N2 where "N2 = \<lparr>wall = 0, ext = - 9223372036806706816, loc = UTC\<rparr>"
  define e where "e = last_june_event"
  have f: "Name e = ''Fee''" "Value e = 100" "EndDate e = L" "Frequency e = Annual"
    unfolding e_def last_june_event_def last_june_value L_def by simp_all
  have nx: "GetNextDate L Annual = Inr N1" "GetNextDate N1 Annual = Inr N2"
    unfolding L_def N1_def N2_def by (rule last_june_next)+
  have c: "\<not> After L L" "\<not> Before L L" "\<not> After N1 L" "\<not> Before L N1"
    unfolding L_def N1_def by simp_all
  have "expand_event e L L [] = expand_event e L N1 (cfMap_append L item [])"
    by (subst expand_event.simps) (simp add: f nx c Let_def item_def)
  also have "\<dots> = expand_event e L N2 (cfMap_append N1 item (cfMap_append L item []))"
    by (subst expand_event.simps) (simp add: f nx c Let_def item_def)
  finally have x: "expand_event e L N2 (cfMap_append N1 item (cfMap_append L item [])) = Some m"
    using assms unfolding e_def last_june_value L_def by simp
  have "N1 \<noteq> L" unfolding N1_def L_def by simp
  then have two: "2 \<le> length (cfMap_append N1 item (cfMap_append L item []))"
    unfolding cfMap_append_def cfMap_get_def by simp
  from x have "2 \<le> length m"
  proof (rule expand_event_rule[where J = "\<lambda>d. True" and I = "\<lambda>m. 2 \<le> length m"])
    show "2 \<le> length (cfMap_append N1 item (cfMap_append L item []))" by (rule two)
  next
    fix d :: Time and m :: "int cfMap"
    assume "2 \<le> length m"
    with cfMap_append_length[of m d "\<lparr>ItemName = Name e, ItemValue = Value e\<rparr>"]
    show "2 \<le> length (cfMap_append d \<lparr>ItemName = Name e, ItemValue = Value e\<rparr> m)"
      by linarith
  qed simp_all
  then show ?thesis .
qed

lemma expand_event_start_equals_end:
  assumes "\<not> IsZero (EndDate e)" "Equal (EndDate e) c" "\<not> After c en" "in_range c"
  shows "expand_event e en c m =
    Some (cfMap_append c \<lparr>ItemName = Name e, ItemValue = Value e\<rparr> m)"
proof -
  define m1 where "m1 = cfMap_append c \<lparr>ItemName = Name e, ItemValue = Value e\<rparr> m"
  have stop: "expand_event e en n m1 = Some m1" if "Before c n" for n
    using that assms(1,2) by (subst expand_event.simps) auto
  show ?thesis
  proof (cases "Frequency e = ''''")
    case True
    with assms show ?thesis by (subst expand_event.simps) (auto simp: Let_def)
  next
    case False
    show ?thesis
    proof (cases "GetNextDate c (Frequency e)")
      case (Inl err)
      with assms show ?thesis by (subst expand_event.simps) (auto simp: Let_def)
    next
      case (Inr n)
      from GetNextDate_increases[OF assms(4) Inr] have "Before c n" .
      from stop[OF this] Inr assms False show ?thesis
        unfolding m1_def by (subst expand_event.simps) (auto simp: Let_def)
    qed
  qed
qed

section \<open>Month arithmetic\<close>

text \<open>
  \<^verbatim>\<open>time.Date\<close> adds the day of the month as an offset to the first day of the month, so
  an advance by months or years is the first day of the target month advanced by the
  day of the month minus one.
\<close>

lemma time_Date_fields:
  "wall (time_Date y m d h mi s ns l) = ns mod 1000000000"
  "loc (time_Date y m d h mi s ns l) = l"
  unfolding time_Date_def norm_def Let_def prod.case by simp_all

lemma time_Date_day:
  "time_Date y m (d + n) h mi s ns l =
     \<lparr>wall = wall (time_Date y m d h mi s ns l),
       ext = int64 (ext (time_Date y m d h mi s ns l) + n * 86400),
       loc = loc (time_Date y m d h mi s ns l)\<rparr>"
proof -
  define c where "c = h + (mi + (s + ns div 1000000000) div 60) div 60"
  define y' where "y' = y + (m - 1) div 12"
  define m' where "m' = (m - 1) mod 12"
  define r where "r = c mod 24 * 3600 + (mi + (s + ns div 1000000000) div 60) mod 60 * 60 +
    (s + ns div 1000000000) mod 60 + (absoluteToInternal + internalToUnix) - offset l
    + unixToInternal"
  have t: "time_Date y m d' h mi s ns l =
      \<lparr>wall = ns mod 1000000000,
        ext = int64 (date_days y' m' (d' + c div 24) * 86400 + r), loc = l\<rparr>" for d'
    unfolding time_Date_def norm_def Let_def prod.case c_def y'_def m'_def r_def
      secondsPerDay_def
    by (simp add: algebra_simps)
  have d: "date_days y' m' (d + n + c div 24) = date_days y' m' (d + c div 24) + n"
    unfolding date_days_def Let_def by simp
  have "int64 (int64 (date_days y' m' (d + c div 24) * 86400 + r) + n * 86400) =
      int64 ((date_days y' m' (d + c div 24) + n) * 86400 + r)"
    unfolding int64_int64_add by (simp add: algebra_simps)
  then show ?thesis unfolding t d by simp
qed

lemma AddDate_days_later:
  assumes "0 \<le> wall t" "wall t < 1000000000"
  shows "AddDate t 0 0 n = \<lparr>wall = wall t, ext = int64 (ext t + n * 86400), loc = loc t\<rparr>"
proof -
  obtain year month day where c: "Time_Date t = (year, month, day)"
    by (cases "Time_Date t") auto
  show ?thesis
    using AddDate_ext[OF assms c, of 0 0 n] unfolding civil_days_day by simp
qed

lemma AddDate_rolls_over:
  assumes "Time_Date t = (year, month, day)" "Clock t = (hour, minute, second)"
  shows "AddDate t years months 0 =
    AddDate (time_Date (year + years) (month + months) 1 hour minute second (wall t) (loc t))
      0 0 (day - 1)"
proof -
  define first where
    "first = time_Date (year + years) (month + months) 1 hour minute second (wall t) (loc t)"
  have w: "0 \<le> wall first" "wall first < 1000000000"
    unfolding first_def time_Date_fields by simp_all
  have "AddDate t years months 0 =
      time_Date (year + years) (month + months) (1 + (day - 1)) hour minute second (wall t) (loc t)"
    unfolding AddDate_def assms by simp
  also have "\<dots> = \<lparr>wall = wall first, ext = int64 (ext first + (day - 1) * 86400),
      loc = loc first\<rparr>"
    unfolding time_Date_day first_def by (rule refl)
  also have "\<dots> = AddDate first 0 0 (day - 1)"
    using AddDate_days_later[OF w, of "day - 1"] by simp
  finally show ?thesis unfolding first_def .
qed

lemma GetNextDate_months:
  assumes "Time_Date t = (year, month, day)" "Clock t = (hour, minute, second)"
  shows "GetNextDate t Monthly =
      Inr (AddDate (time_Date year (month + 1) 1 hour minute second (wall t) (loc t))
             0 0 (day - 1))"
    and "GetNextDate t Quarterly =
      Inr (AddDate (time_Date year (month + 3) 1 hour minute second (wall t) (loc t))
             0 0 (day - 1))"
    and "GetNextDate t SemiAnnual =
      Inr (AddDate (time_Date year (month + 6) 1 hour minute second (wall t) (loc t))
             0 0 (day - 1))"
    and "GetNextDate t Annual =
      Inr (AddDate (time_Date (year + 1) month 1 hour minute second (wall t) (loc t))
             0 0 (day - 1))"
  using AddDate_rolls_over[OF assms, of 0 1] AddDate_rolls_over[OF assms, of 0 3]
    AddDate_rolls_over[OF assms, of 0 6] AddDate_rolls_over[OF assms, of 1 0]
  unfolding GetNextDate_def frequencyDeltas_def by simp_all

section \<open>Properties of the cashflow engine\<close>

lemma mset_one:
  assumes "mset xs = {#x#}"
  shows "xs = [x]"
  using assms by (cases xs) auto

lemma runtime_singleton:
  assumes "runtime_ok rt"
  shows "range_order rt [p] = [p]" "sort_Slice rt [cf] = [cf]"
proof -
  from assms have "mset (range_order rt [p]) = {#p#}" "mset (sort_Slice rt [cf]) = {#cf#}"
    unfolding runtime_ok_def by simp_all
  then show "range_order rt [p] = [p]" "sort_Slice rt [cf] = [cf]"
    using mset_one by blast+
qed

lemma example_run:
  "GenerateCashflows example_runtime example_events (utc_date 2025 1 1) (utc_date 2025 3 31) =
     Some (Inr example_cashflows)"
  by code_simp

lemma GenerateCashflows_returns:
  assumes "\<not> After b en" "dates_in_range evs b en"
  shows "\<exists>cashflows. GenerateCashflows rt evs b en = Some (Inr cashflows)"
proof -
  from assms(2) have r: "wellformed b" "in_range en"
    "list_all (\<lambda>event. wellformed (StartDate event)) evs"
    unfolding dates_in_range_def by simp_all
  from in_range_before[OF r(2,1) assms(1)] have "in_range b" .
  from events_loop_returns[OF this r(2,3), of "[]"] assms(1) show ?thesis
    unfolding GenerateCashflows_def by auto
qed


lemma GenerateCashflows_Inl:
  assumes "GenerateCashflows rt evs b en = Some (Inl err)"
  shows "After b en \<and> err = InvalidWindow"
  using assms unfolding GenerateCashflows_def by (auto split: if_splits option.splits)

lemma GenerateCashflows_Inr:
  assumes "GenerateCashflows rt evs b en = Some (Inr cashflows)"
  shows "\<exists>m. events_loop b en evs [] = Some m \<and>
    cashflows = sortCashflowsByDate rt (cfMap_entries (range_order rt m))"
  using assms unfolding GenerateCashflows_def by (auto split: if_splits option.splits)

subsection \<open>Window errors\<close>




subsection \<open>Running balance\<close>

lemma balance_foldl:
  "fst (foldl (\<lambda>(result, runningBalance) cf.
               (result @ [cf\<lparr>Balance := runningBalance + Cashflow cf\<rparr>],
                runningBalance + Cashflow cf))
          (res, rb) es) =
   res @ map (\<lambda>i. (es ! i)\<lparr>Balance := foldl (+) rb (map Cashflow (take (Suc i) es))\<rparr>)
           [0..<length es]"
proof (induction es arbitrary: res rb)
  case Nil
  show ?case by simp
next
  case (Cons e es)
  have "[0..<length (e # es)] = 0 # map Suc [0..<length es]"
    by (simp add: upt_conv_Cons map_Suc_upt del: upt_Suc)
  then show ?case by (simp add: Cons.IH comp_def del: upt_Suc)
qed

text \<open>
  C3. \<open>BalanceFromCashflows\<close> has no failure. For entries \<open>es\<close> of length \<open>n\<close> it returns
  \<open>n + 1\<close> entries: first the entry dated \<open>simStart\<close> with cashflow 0, balance \<open>b\<close> and no
  items, also when \<open>es\<close> is empty, then the entries of \<open>es\<close> in their order, the one at
  index \<open>i\<close> unchanged but for its balance, which is \<open>b\<close> plus the cashflows of the
  entries up to and including it, added from the left.
\<close>

theorem BalanceFromCashflows_ledger:
  "BalanceFromCashflows b simStart es =
     \<lparr>Date = simStart, Cashflow = 0, Balance = b, Items = []\<rparr> #
     map (\<lambda>i. (es ! i)\<lparr>Balance := foldl (+) b (map Cashflow (take (Suc i) es))\<rparr>)
       [0..<length es] \<and>
   length (BalanceFromCashflows b simStart es) = length es + 1"
  unfolding BalanceFromCashflows_def emptyCashflowItems_def Let_def balance_foldl by simp

theorem BalanceFromCashflows_ledger_witness:
  "BalanceFromCashflows (5000 :: int) (utc_date 2025 1 1)
     [\<lparr>Date = utc_date 2025 1 15, Cashflow = 1000, Balance = 0, Items = []\<rparr>,
      \<lparr>Date = utc_date 2025 2 15, Cashflow = 2000, Balance = 0, Items = []\<rparr>,
      \<lparr>Date = utc_date 2025 3 15, Cashflow = - 500, Balance = 0, Items = []\<rparr>] =
     [\<lparr>Date = utc_date 2025 1 1, Cashflow = 0, Balance = 5000, Items = []\<rparr>,
      \<lparr>Date = utc_date 2025 1 15, Cashflow = 1000, Balance = 6000, Items = []\<rparr>,
      \<lparr>Date = utc_date 2025 2 15, Cashflow = 2000, Balance = 8000, Items = []\<rparr>,
      \<lparr>Date = utc_date 2025 3 15, Cashflow = - 500, Balance = 7500, Items = []\<rparr>] \<and>
   BalanceFromCashflows (1000 :: int) (utc_date 2025 1 1) [] =
     [\<lparr>Date = utc_date 2025 1 1, Cashflow = 0, Balance = 1000, Items = []\<rparr>]"
  using BalanceFromCashflows_ledger[of "5000 :: int" "utc_date 2025 1 1"
      "[\<lparr>Date = utc_date 2025 1 15, Cashflow = 1000, Balance = 0, Items = []\<rparr>,
        \<lparr>Date = utc_date 2025 2 15, Cashflow = 2000, Balance = 0, Items = []\<rparr>,
        \<lparr>Date = utc_date 2025 3 15, Cashflow = - 500, Balance = 0, Items = []\<rparr>]"]
    BalanceFromCashflows_ledger[of "1000 :: int" "utc_date 2025 1 1" "[]"]
  by (simp add: upt_rec)

subsection \<open>First occurrence\<close>

text \<open>
  C5. For an event with frequency daily that does not start after \<open>cfEnd\<close>, whose end
  date is absent or not before \<open>cfBegin\<close>, and whose end date is absent or different from
  its start date, \<open>GetFirstDate\<close> returns \<open>cfBegin\<close> with success, wherever the start date
  lies.
\<close>

theorem GetFirstDate_daily_cfBegin:
  assumes "Frequency event = Daily"
    and "\<not> After (StartDate event) cfEnd"
    and "IsZero (EndDate event) \<or> \<not> Before (EndDate event) cfBegin"
    and "IsZero (EndDate event) \<or> \<not> Equal (EndDate event) (StartDate event)"
  shows "GetFirstDate event cfBegin cfEnd = Some (cfBegin, True)"
  using assms unfolding GetFirstDate_def Let_def by auto

theorem GetFirstDate_daily_cfBegin_witness:
  "GetFirstDate
     \<lparr>Name = ''Coffee'', StartDate = utc_date 2025 6 10, EndDate = zero_Time,
       Frequency = Daily, Value = - 3 :: int, Obs = ''''\<rparr>
     (utc_date 2025 1 1) (utc_date 2025 12 31) = Some (utc_date 2025 1 1, True)"
proof (rule GetFirstDate_daily_cfBegin)
  show "\<not> After (StartDate \<lparr>Name = ''Coffee'', StartDate = utc_date 2025 6 10,
      EndDate = zero_Time, Frequency = Daily, Value = - 3 :: int, Obs = ''''\<rparr>)
    (utc_date 2025 12 31)"
    by code_simp
  show "IsZero (EndDate \<lparr>Name = ''Coffee'', StartDate = utc_date 2025 6 10,
      EndDate = zero_Time, Frequency = Daily, Value = - 3 :: int, Obs = ''''\<rparr>) \<or>
    \<not> Before (EndDate \<lparr>Name = ''Coffee'', StartDate = utc_date 2025 6 10,
      EndDate = zero_Time, Frequency = Daily, Value = - 3 :: int, Obs = ''''\<rparr>)
      (utc_date 2025 1 1)"
    by (simp add: zero_Time_def)
  show "IsZero (EndDate \<lparr>Name = ''Coffee'', StartDate = utc_date 2025 6 10,
      EndDate = zero_Time, Frequency = Daily, Value = - 3 :: int, Obs = ''''\<rparr>) \<or>
    \<not> Equal (EndDate \<lparr>Name = ''Coffee'', StartDate = utc_date 2025 6 10,
      EndDate = zero_Time, Frequency = Daily, Value = - 3 :: int, Obs = ''''\<rparr>)
      (StartDate \<lparr>Name = ''Coffee'', StartDate = utc_date 2025 6 10,
      EndDate = zero_Time, Frequency = Daily, Value = - 3 :: int, Obs = ''''\<rparr>)"
    by (simp add: zero_Time_def)
qed simp




subsection \<open>Entries of the generator\<close>

lemma GenerateCashflows_entries:
  assumes "runtime_ok rt" "GenerateCashflows rt evs b en = Some (Inr cashflows)"
    and "cf \<in> set cashflows"
  shows "Cashflow cf = foldl (+) 0 (map ItemValue (Items cf))" "Items cf \<noteq> []"
    and "\<forall>item \<in> set (Items cf). ItemValue item \<noteq> 0 \<and>
          (\<exists>event \<in> set evs. Value event \<noteq> 0 \<and>
             item = \<lparr>ItemName = Name event, ItemValue = Value event\<rparr>)"
    and "\<not> After (Date cf) en"
proof -
  from GenerateCashflows_Inr[OF assms(2)] obtain m
    where m: "events_loop b en evs [] = Some m"
      and c: "cashflows = sortCashflowsByDate rt (cfMap_entries (range_order rt m))"
    by blast
  note inv = events_loop_invariants[OF m]
  have "set cashflows = set (cfMap_entries m)"
    unfolding c using runtime_entries[OF assms(1), of m] by (rule mset_eq_setD)
  with assms(3) have "cf \<in> set (cfMap_entries m)" by simp
  note f = cfMap_entries_fields[OF this]
  from f inv(2) have ne: "Items cf \<noteq> []"
    and i: "\<forall>item \<in> set (Items cf). \<exists>event \<in> set evs.
         Value event \<noteq> 0 \<and> item = \<lparr>ItemName = Name event, ItemValue = Value event\<rparr>"
    unfolding items_from_def by blast+
  show "Items cf \<noteq> []" by (rule ne)
  show "Cashflow cf = foldl (+) 0 (map ItemValue (Items cf))"
    using f by (simp add: items_total_foldl)
  from i show "\<forall>item \<in> set (Items cf). ItemValue item \<noteq> 0 \<and>
          (\<exists>event \<in> set evs. Value event \<noteq> 0 \<and>
             item = \<lparr>ItemName = Name event, ItemValue = Value event\<rparr>)"
    by fastforce
  from f have "Date cf \<in> fst ` set m" by force
  with inv(3) show "\<not> After (Date cf) en" by blast
qed

text \<open>
  C7. Every entry that \<open>GenerateCashflows\<close> returns on a valid window has a cashflow that
  is the sum of the values of its items, added from the left starting at 0 as the source
  does. It has at least one item and none of value 0: every item was built from an event
  of the input whose value is not zero, so an event with value zero leaves no item and
  no entry. And on a valid window whose dates are \<open>dates_in_range\<close>, \<open>GenerateCashflows\<close>
  does return such entries.
\<close>

theorem GenerateCashflows_cashflow_sums_items:
  assumes "\<not> After cfBegin cfEnd" "runtime_ok rt"
  shows "(\<forall>r. GenerateCashflows rt events cfBegin cfEnd = Some r \<longrightarrow>
      (\<exists>cashflows. r = Inr cashflows \<and>
        (\<forall>cf \<in> set cashflows.
           Cashflow cf = foldl (+) 0 (map ItemValue (Items cf)) \<and> Items cf \<noteq> [] \<and>
           (\<forall>item \<in> set (Items cf). ItemValue item \<noteq> 0 \<and>
              (\<exists>event \<in> set events. Value event \<noteq> 0 \<and>
                 item = \<lparr>ItemName = Name event, ItemValue = Value event\<rparr>))))) \<and>
    (dates_in_range events cfBegin cfEnd \<longrightarrow>
      (\<exists>cashflows. GenerateCashflows rt events cfBegin cfEnd = Some (Inr cashflows) \<and>
        (\<forall>cf \<in> set cashflows.
           Cashflow cf = foldl (+) 0 (map ItemValue (Items cf)) \<and> Items cf \<noteq> [] \<and>
           (\<forall>item \<in> set (Items cf). ItemValue item \<noteq> 0 \<and>
              (\<exists>event \<in> set events. Value event \<noteq> 0 \<and>
                 item = \<lparr>ItemName = Name event, ItemValue = Value event\<rparr>)))))"
proof -
  have p: "\<forall>cf \<in> set cashflows.
      Cashflow cf = foldl (+) 0 (map ItemValue (Items cf)) \<and> Items cf \<noteq> [] \<and>
      (\<forall>item \<in> set (Items cf). ItemValue item \<noteq> 0 \<and>
         (\<exists>event \<in> set events. Value event \<noteq> 0 \<and>
            item = \<lparr>ItemName = Name event, ItemValue = Value event\<rparr>))"
    if "GenerateCashflows rt events cfBegin cfEnd = Some (Inr cashflows)" for cashflows
  proof
    fix cf
    assume "cf \<in> set cashflows"
    from GenerateCashflows_entries(1,2,3)[OF assms(2) that this]
    show "Cashflow cf = foldl (+) 0 (map ItemValue (Items cf)) \<and> Items cf \<noteq> [] \<and>
      (\<forall>item \<in> set (Items cf). ItemValue item \<noteq> 0 \<and>
         (\<exists>event \<in> set events. Value event \<noteq> 0 \<and>
            item = \<lparr>ItemName = Name event, ItemValue = Value event\<rparr>))"
      by (intro conjI)
  qed
  have 1: "\<forall>r. GenerateCashflows rt events cfBegin cfEnd = Some r \<longrightarrow>
      (\<exists>cashflows. r = Inr cashflows \<and>
        (\<forall>cf \<in> set cashflows.
           Cashflow cf = foldl (+) 0 (map ItemValue (Items cf)) \<and> Items cf \<noteq> [] \<and>
           (\<forall>item \<in> set (Items cf). ItemValue item \<noteq> 0 \<and>
              (\<exists>event \<in> set events. Value event \<noteq> 0 \<and>
                 item = \<lparr>ItemName = Name event, ItemValue = Value event\<rparr>))))"
  proof (intro allI impI)
    fix r
    assume r: "GenerateCashflows rt events cfBegin cfEnd = Some r"
    show "\<exists>cashflows. r = Inr cashflows \<and>
        (\<forall>cf \<in> set cashflows.
           Cashflow cf = foldl (+) 0 (map ItemValue (Items cf)) \<and> Items cf \<noteq> [] \<and>
           (\<forall>item \<in> set (Items cf). ItemValue item \<noteq> 0 \<and>
              (\<exists>event \<in> set events. Value event \<noteq> 0 \<and>
                 item = \<lparr>ItemName = Name event, ItemValue = Value event\<rparr>)))"
    proof (cases r)
      case (Inl err)
      from GenerateCashflows_Inl[OF r[unfolded Inl]] assms(1) show ?thesis by blast
    next
      case (Inr cashflows)
      from p[OF r[unfolded Inr]] Inr show ?thesis by (intro exI conjI)
    qed
  qed
  have 2: "dates_in_range events cfBegin cfEnd \<longrightarrow>
      (\<exists>cashflows. GenerateCashflows rt events cfBegin cfEnd = Some (Inr cashflows) \<and>
        (\<forall>cf \<in> set cashflows.
           Cashflow cf = foldl (+) 0 (map ItemValue (Items cf)) \<and> Items cf \<noteq> [] \<and>
           (\<forall>item \<in> set (Items cf). ItemValue item \<noteq> 0 \<and>
              (\<exists>event \<in> set events. Value event \<noteq> 0 \<and>
                 item = \<lparr>ItemName = Name event, ItemValue = Value event\<rparr>))))"
  proof (intro impI)
    assume "dates_in_range events cfBegin cfEnd"
    from GenerateCashflows_returns[OF assms(1) this, of rt] obtain cashflows
      where g: "GenerateCashflows rt events cfBegin cfEnd = Some (Inr cashflows)"
      by (rule exE)
    from g p[OF g] show "\<exists>cashflows.
        GenerateCashflows rt events cfBegin cfEnd = Some (Inr cashflows) \<and>
        (\<forall>cf \<in> set cashflows.
           Cashflow cf = foldl (+) 0 (map ItemValue (Items cf)) \<and> Items cf \<noteq> [] \<and>
           (\<forall>item \<in> set (Items cf). ItemValue item \<noteq> 0 \<and>
              (\<exists>event \<in> set events. Value event \<noteq> 0 \<and>
                 item = \<lparr>ItemName = Name event, ItemValue = Value event\<rparr>)))"
      by (intro exI conjI)
  qed
  show ?thesis by (rule conjI[OF 1 2])
qed

theorem GenerateCashflows_cashflow_sums_items_witness:
  "\<not> After (utc_date 2025 1 1) (utc_date 2025 3 31) \<and>
   runtime_ok (example_runtime :: int runtime) \<and>
   dates_in_range example_events (utc_date 2025 1 1) (utc_date 2025 3 31) \<and>
   GenerateCashflows example_runtime example_events (utc_date 2025 1 1) (utc_date 2025 3 31) =
     Some (Inr example_cashflows) \<and>
   length example_cashflows = 3 \<and>
   list_all (\<lambda>cf. Cashflow cf = foldl (+) 0 (map ItemValue (Items cf)) \<and>
                  list_all (\<lambda>item. ItemValue item \<noteq> 0) (Items cf)) example_cashflows"
proof -
  have w: "\<not> After (utc_date 2025 1 1) (utc_date 2025 3 31)" by code_simp
  have r: "dates_in_range example_events (utc_date 2025 1 1) (utc_date 2025 3 31)"
    by code_simp
  note ok = runtime_ok_example_runtime[where 'a = int]
  note t = GenerateCashflows_cashflow_sums_items[OF w ok, of example_events]
  from t[THEN conjunct1, THEN spec, of "Inr example_cashflows"] example_run
  have "\<exists>cashflows. Inr example_cashflows = (Inr cashflows :: error + int Cashflow list) \<and>
      (\<forall>cf \<in> set cashflows.
         Cashflow cf = foldl (+) 0 (map ItemValue (Items cf)) \<and> Items cf \<noteq> [] \<and>
         (\<forall>item \<in> set (Items cf). ItemValue item \<noteq> 0 \<and>
            (\<exists>event \<in> set example_events. Value event \<noteq> 0 \<and>
               item = \<lparr>ItemName = Name event, ItemValue = Value event\<rparr>)))"
    by (rule mp)
  then have "\<forall>cf \<in> set example_cashflows.
       Cashflow cf = foldl (+) 0 (map ItemValue (Items cf)) \<and>
       (\<forall>item \<in> set (Items cf). ItemValue item \<noteq> 0)"
    by auto
  then have "list_all (\<lambda>cf. Cashflow cf = foldl (+) 0 (map ItemValue (Items cf)) \<and>
                  list_all (\<lambda>item. ItemValue item \<noteq> 0) (Items cf)) example_cashflows"
    unfolding list_all_iff .
  moreover have "length example_cashflows = 3" unfolding example_cashflows_def by simp
  ultimately show ?thesis using w r ok example_run by (intro conjI)
qed

lemma same_instant_loop:
  "events_loop (utc_date 2025 1 1) (utc_date 2025 12 31) same_instant_events [] =
     Some [(utc_date 2025 1 15, [\<lparr>ItemName = ''First'', ItemValue = 1000\<rparr>]),
           (time_Date 2025 1 15 0 0 0 0 (Zone 1 0),
            [\<lparr>ItemName = ''Second'', ItemValue = 2000\<rparr>])]"
  by code_simp

lemma same_instant_dates:
  "Equal (utc_date 2025 1 15) (time_Date 2025 1 15 0 0 0 0 (Zone 1 0))"
  "loc (utc_date 2025 1 15) = UTC" "loc (time_Date 2025 1 15 0 0 0 0 (Zone 1 0)) = Zone 1 0"
  "\<not> After (utc_date 2025 1 1) (utc_date 2025 12 31)"
  by code_simp+

text \<open>
  What the sort and the map do give: no entry is before one that precedes it, and no
  two entries have the same date as structs, that is, the same instant in the same
  location.
\<close>

lemma GenerateCashflows_dates_sorted:
  assumes "runtime_ok rt" "GenerateCashflows rt events cfBegin cfEnd = Some (Inr cashflows)"
  shows "sorted_wrt (\<lambda>a b. \<not> Before (Date b) (Date a)) cashflows"
    and "distinct (map Date cashflows)"
proof -
  from GenerateCashflows_Inr[OF assms(2)] obtain m
    where m: "events_loop cfBegin cfEnd events [] = Some m"
      and c: "cashflows = sortCashflowsByDate rt (cfMap_entries (range_order rt m))"
    by blast
  show "sorted_wrt (\<lambda>a b. \<not> Before (Date b) (Date a)) cashflows"
    unfolding c by (rule runtime_sorted[OF assms(1)])
  have "mset (map Date cashflows) = mset (map Date (cfMap_entries m))"
    unfolding c mset_map runtime_entries[OF assms(1)] by (rule refl)
  then have "mset (map Date cashflows) = mset (map fst m)" unfolding Date_cfMap_entries .
  moreover have "distinct (map fst m)" by (rule events_loop_invariants(1)[OF m])
  ultimately show "distinct (map Date cashflows)" by (metis mset_eq_imp_distinct_iff)
qed

text \<open>
  C8. The claim is that the entries of \<open>GenerateCashflows\<close> are strictly increasing in
  date, each date appearing in one entry. The code does not keep it. The map compares
  its keys as structs, location included, while the order of dates compares instants.
  The two events of \<open>same_instant_events\<close> fall on the same instant, one in UTC and one in
  a zone of offset 0; they are stored under two keys, and the result has two entries of
  the same instant, in the order that the sort happens to leave them in.
\<close>

theorem GenerateCashflows_same_instant_twice:
  assumes "runtime_ok rt"
  shows "\<exists>a b.
    GenerateCashflows rt same_instant_events (utc_date 2025 1 1) (utc_date 2025 12 31) =
      Some (Inr [a, b]) \<and>
    Equal (Date a) (Date b) \<and> \<not> Before (Date a) (Date b) \<and> loc (Date a) \<noteq> loc (Date b) \<and>
    \<not> sorted_wrt Before (map Date [a, b])"
proof -
  define c1 :: "int Cashflow" where
    "c1 = \<lparr>Date = utc_date 2025 1 15, Cashflow = 0 + 1000, Balance = 0,
            Items = [\<lparr>ItemName = ''First'', ItemValue = 1000\<rparr>]\<rparr>"
  define c2 :: "int Cashflow" where
    "c2 = \<lparr>Date = time_Date 2025 1 15 0 0 0 0 (Zone 1 0), Cashflow = 0 + 2000, Balance = 0,
            Items = [\<lparr>ItemName = ''Second'', ItemValue = 2000\<rparr>]\<rparr>"
  define m :: "int cfMap" where
    "m = [(utc_date 2025 1 15, [\<lparr>ItemName = ''First'', ItemValue = 1000\<rparr>]),
          (time_Date 2025 1 15 0 0 0 0 (Zone 1 0),
           [\<lparr>ItemName = ''Second'', ItemValue = 2000\<rparr>])]"
  define res where "res = sortCashflowsByDate rt (cfMap_entries (range_order rt m))"
  have g: "GenerateCashflows rt same_instant_events (utc_date 2025 1 1) (utc_date 2025 12 31) =
      Some (Inr res)"
    unfolding GenerateCashflows_def if_not_P[OF same_instant_dates(4)] same_instant_loop
      res_def m_def by simp
  have "cfMap_entries m = [c1, c2]"
    unfolding cfMap_entries_def m_def c1_def c2_def items_total_def by simp
  with runtime_entries[OF assms, of m] have "mset res = {#c1, c2#}"
    unfolding res_def by simp
  from mset_two[OF this] have r: "res = [c1, c2] \<or> res = [c2, c1]" .
  have d: "Date c1 = utc_date 2025 1 15" "Date c2 = time_Date 2025 1 15 0 0 0 0 (Zone 1 0)"
    unfolding c1_def c2_def by simp_all
  have p: "Equal (Date c1) (Date c2)" "loc (Date c1) \<noteq> loc (Date c2)"
    unfolding d time_Date_fields using same_instant_dates(1) by simp_all
  from r show ?thesis
  proof
    assume "res = [c1, c2]"
    with g p show ?thesis by (intro exI[of _ c1] exI[of _ c2]) auto
  next
    assume "res = [c2, c1]"
    with g p show ?thesis by (intro exI[of _ c2] exI[of _ c1]) auto
  qed
qed

theorem GenerateCashflows_same_instant_twice_witness:
  "runtime_ok (example_runtime :: int runtime) \<and>
   GenerateCashflows example_runtime same_instant_events (utc_date 2025 1 1)
       (utc_date 2025 12 31) =
     Some (Inr [\<lparr>Date = time_Date 2025 1 15 0 0 0 0 (Zone 1 0), Cashflow = 2000, Balance = 0,
                  Items = [\<lparr>ItemName = ''Second'', ItemValue = 2000\<rparr>]\<rparr>,
                \<lparr>Date = utc_date 2025 1 15, Cashflow = 1000, Balance = 0,
                  Items = [\<lparr>ItemName = ''First'', ItemValue = 1000\<rparr>]\<rparr>]) \<and>
   (\<exists>a b.
      GenerateCashflows example_runtime same_instant_events (utc_date 2025 1 1)
          (utc_date 2025 12 31) = Some (Inr [a, b]) \<and>
      Equal (Date a) (Date b) \<and> \<not> Before (Date a) (Date b) \<and> loc (Date a) \<noteq> loc (Date b) \<and>
      \<not> sorted_wrt Before (map Date [a, b]))"
proof -
  note ok = runtime_ok_example_runtime[where 'a = int]
  have e: "GenerateCashflows example_runtime same_instant_events (utc_date 2025 1 1)
       (utc_date 2025 12 31) =
     Some (Inr [\<lparr>Date = time_Date 2025 1 15 0 0 0 0 (Zone 1 0), Cashflow = 2000, Balance = 0,
                  Items = [\<lparr>ItemName = ''Second'', ItemValue = 2000\<rparr>]\<rparr>,
                \<lparr>Date = utc_date 2025 1 15, Cashflow = 1000, Balance = 0,
                  Items = [\<lparr>ItemName = ''First'', ItemValue = 1000\<rparr>]\<rparr>])"
    by code_simp
  show ?thesis
    by (rule conjI[OF ok conjI[OF e GenerateCashflows_same_instant_twice[OF ok]]])
qed

text \<open>
  C6. The claim is that an event with nonzero value whose end date is present and equal
  to its start date, the start date lying in the window, gives exactly one contribution,
  dated at its start date, whatever its frequency is. It holds when the start date is
  \<open>in_range\<close>: the step of the generator for this event turns any map into the same map
  with one item appended under the start date, since the next date is strictly later
  than the end date and the loop stops; alone in the input, the event gives one entry.
  It does not hold at the end of the range of \<^verbatim>\<open>Time\<close>.
\<close>

theorem GenerateCashflows_start_equals_end_once:
  assumes "Value event \<noteq> 0"
    and "\<not> IsZero (EndDate event)"
    and "Equal (EndDate event) (StartDate event)"
    and "\<not> Before (StartDate event) cfBegin"
    and "\<not> After (StartDate event) cfEnd"
    and "in_range (StartDate event)"
    and "runtime_ok rt"
  shows "process_event cfBegin cfEnd event cfMap =
      Some (cfMap_append (StartDate event)
              \<lparr>ItemName = Name event, ItemValue = Value event\<rparr> cfMap) \<and>
    GenerateCashflows rt [event] cfBegin cfEnd =
      Some (Inr [\<lparr>Date = StartDate event, Cashflow = 0 + Value event, Balance = 0,
                   Items = [\<lparr>ItemName = Name event, ItemValue = Value event\<rparr>]\<rparr>])"
proof -
  have f: "GetFirstDate event cfBegin cfEnd = Some (StartDate event, True)"
    using assms(2-5) unfolding GetFirstDate_def Let_def by auto
  have e: "expand_event event cfEnd (StartDate event) m =
      Some (cfMap_append (StartDate event) \<lparr>ItemName = Name event, ItemValue = Value event\<rparr> m)"
    for m
    using assms(2,3,5,6) by (intro expand_event_start_equals_end) auto
  have p: "process_event cfBegin cfEnd event m =
      Some (cfMap_append (StartDate event) \<lparr>ItemName = Name event, ItemValue = Value event\<rparr> m)"
    for m
    unfolding process_event_def using assms(1) f e by simp
  have w: "\<not> After cfBegin cfEnd" using assms(4,5) by auto
  have "GenerateCashflows rt [event] cfBegin cfEnd =
      Some (Inr [\<lparr>Date = StartDate event, Cashflow = 0 + Value event, Balance = 0,
                   Items = [\<lparr>ItemName = Name event, ItemValue = Value event\<rparr>]\<rparr>])"
    unfolding GenerateCashflows_def if_not_P[OF w]
    by (simp add: p cfMap_append_def cfMap_get_def cfMap_entries_def items_total_def
        sortCashflowsByDate_def runtime_singleton[OF assms(7)])
  with p show ?thesis by simp
qed

theorem GenerateCashflows_start_equals_end_once_witness:
  "runtime_ok (example_runtime :: int runtime) \<and>
   in_range (utc_date 2025 6 15) \<and>
   GenerateCashflows example_runtime
     [\<lparr>Name = ''Fee'', StartDate = utc_date 2025 6 15, EndDate = utc_date 2025 6 15,
        Frequency = Monthly, Value = 100 :: int, Obs = ''''\<rparr>]
     (utc_date 2025 1 1) (utc_date 2025 12 31) =
   Some (Inr [\<lparr>Date = utc_date 2025 6 15, Cashflow = 100, Balance = 0,
                Items = [\<lparr>ItemName = ''Fee'', ItemValue = 100\<rparr>]\<rparr>])"
proof -
  define event :: "int Event" where
    "event = \<lparr>Name = ''Fee'', StartDate = utc_date 2025 6 15, EndDate = utc_date 2025 6 15,
        Frequency = Monthly, Value = 100, Obs = ''''\<rparr>"
  note ok = runtime_ok_example_runtime[where 'a = int]
  have c: "\<not> IsZero (utc_date 2025 6 15)" "\<not> Before (utc_date 2025 6 15) (utc_date 2025 1 1)"
    "\<not> After (utc_date 2025 6 15) (utc_date 2025 12 31)" "in_range (utc_date 2025 6 15)"
    by code_simp+
  have h: "Value event \<noteq> 0" "\<not> IsZero (EndDate event)" "Equal (EndDate event) (StartDate event)"
    "\<not> Before (StartDate event) (utc_date 2025 1 1)"
    "\<not> After (StartDate event) (utc_date 2025 12 31)" "in_range (StartDate event)"
    unfolding event_def using c by simp_all
  from GenerateCashflows_start_equals_end_once[OF h ok, THEN conjunct2]
  have "GenerateCashflows example_runtime [event] (utc_date 2025 1 1) (utc_date 2025 12 31) =
      Some (Inr [\<lparr>Date = utc_date 2025 6 15, Cashflow = 100, Balance = 0,
                   Items = [\<lparr>ItemName = ''Fee'', ItemValue = 100\<rparr>]\<rparr>])"
    unfolding event_def by simp
  then show ?thesis unfolding event_def using ok c(4) by (intro conjI)
qed

text \<open>
  The event \<open>last_june_event\<close> starts and ends on June 15 of the last year whose June 15
  is a \<^verbatim>\<open>Time\<close>, in a window that is that one day, and recurs annually. Its second
  occurrence wraps around to a date long before the window, which is neither after the
  end of the window nor after the end date, so a second contribution is stored and the
  expansion goes on from there: whatever \<open>GenerateCashflows\<close> returns, it is not a list of
  one entry.
\<close>

theorem GenerateCashflows_start_equals_end_wraps:
  "Value last_june_event \<noteq> 0 \<and> \<not> IsZero (EndDate last_june_event) \<and>
   Equal (EndDate last_june_event) (StartDate last_june_event) \<and>
   \<not> Before (StartDate last_june_event) last_june \<and>
   \<not> After (StartDate last_june_event) last_june \<and>
   wellformed (StartDate last_june_event) \<and>
   runtime_ok (example_runtime :: int runtime) \<and>
   \<not> (\<exists>cashflows.
         GenerateCashflows example_runtime [last_june_event] last_june last_june =
           Some (Inr cashflows) \<and> length cashflows = 1)"
proof -
  note ok = runtime_ok_example_runtime[where 'a = int]
  have a: "Value last_june_event \<noteq> 0 \<and> \<not> IsZero (EndDate last_june_event) \<and>
      Equal (EndDate last_june_event) (StartDate last_june_event) \<and>
      \<not> Before (StartDate last_june_event) last_june \<and>
      \<not> After (StartDate last_june_event) last_june \<and>
      wellformed (StartDate last_june_event)"
    by code_simp
  have f: "GetFirstDate last_june_event last_june last_june = Some (last_june, True)"
    by code_simp
  have "length cashflows \<noteq> 1"
    if g: "GenerateCashflows example_runtime [last_june_event] last_june last_june =
      Some (Inr cashflows)" for cashflows
  proof -
    from GenerateCashflows_Inr[OF g] obtain m
      where m: "events_loop last_june last_june [last_june_event] [] = Some m"
        and c: "cashflows = sortCashflowsByDate example_runtime
          (cfMap_entries (range_order example_runtime m))"
      by blast
    from m have pm: "process_event last_june last_june last_june_event [] = Some m"
      by (simp split: option.splits)
    have v: "Value last_june_event \<noteq> 0" unfolding last_june_event_def by simp
    from pm have "expand_event last_june_event last_june last_june [] = Some m"
      unfolding process_event_def f using v by simp
    from expand_event_last_june[OF this] have "2 \<le> length m" .
    moreover have "size (mset cashflows) = size (mset (cfMap_entries m))"
      unfolding c runtime_entries[OF ok] by (rule refl)
    then have "length cashflows = length m" unfolding cfMap_entries_def by simp
    ultimately show ?thesis by simp
  qed
  then have "\<not> (\<exists>cashflows.
      GenerateCashflows example_runtime [last_june_event] last_june last_june =
        Some (Inr cashflows) \<and> length cashflows = 1)"
    by blast
  with a ok show ?thesis by (intro conjI) blast+
qed

subsection \<open>Roll-over of the day of the month\<close>

text \<open>
  C4. A monthly advance keeps the day of the month and lets \<open>time_Date\<close> normalise it: the
  result is the first day of the target month advanced by the day of the month minus
  one, with no clamping to the last day of the target month. So 2025-01-31 advanced by
  a month is 2025-03-03 and not 2025-02-28. The quarterly, semi-annual and annual
  advances normalise in the same way: 2025-01-31 plus three months is 2025-05-01,
  2025-03-31 plus six months is 2025-10-01, and 2024-02-29 plus a year is 2025-03-01.
\<close>

theorem GetNextDate_rolls_over:
  "Time_Date (utc_date 2025 1 31) = (2025, 1, 31) \<and>
   GetNextDate (utc_date 2025 1 31) Monthly = Inr (utc_date 2025 3 3) \<and>
   Time_Date (utc_date 2025 3 3) = (2025, 3, 3) \<and>
   GetNextDate (utc_date 2025 1 31) Monthly \<noteq> Inr (utc_date 2025 2 28) \<and>
   GetNextDate (utc_date 2025 1 31) Quarterly = Inr (utc_date 2025 5 1) \<and>
   Time_Date (utc_date 2025 5 1) = (2025, 5, 1) \<and>
   GetNextDate (utc_date 2025 3 31) SemiAnnual = Inr (utc_date 2025 10 1) \<and>
   Time_Date (utc_date 2025 10 1) = (2025, 10, 1) \<and>
   GetNextDate (utc_date 2024 2 29) Annual = Inr (utc_date 2025 3 1) \<and>
   Time_Date (utc_date 2025 3 1) = (2025, 3, 1) \<and>
   (\<forall>t year month day hour minute second.
      Time_Date t = (year, month, day) \<and> Clock t = (hour, minute, second) \<longrightarrow>
      GetNextDate t Monthly =
        Inr (AddDate (time_Date year (month + 1) 1 hour minute second (wall t) (loc t))
               0 0 (day - 1)) \<and>
      GetNextDate t Quarterly =
        Inr (AddDate (time_Date year (month + 3) 1 hour minute second (wall t) (loc t))
               0 0 (day - 1)) \<and>
      GetNextDate t SemiAnnual =
        Inr (AddDate (time_Date year (month + 6) 1 hour minute second (wall t) (loc t))
               0 0 (day - 1)) \<and>
      GetNextDate t Annual =
        Inr (AddDate (time_Date (year + 1) month 1 hour minute second (wall t) (loc t))
               0 0 (day - 1)))"
proof -
  have 1: "Time_Date (utc_date 2025 1 31) = (2025, 1, 31)" by code_simp
  have 2: "GetNextDate (utc_date 2025 1 31) Monthly = Inr (utc_date 2025 3 3)"
    by code_simp
  have 3: "Time_Date (utc_date 2025 3 3) = (2025, 3, 3)" by code_simp
  have 4: "GetNextDate (utc_date 2025 1 31) Monthly \<noteq> Inr (utc_date 2025 2 28)"
    by code_simp
  have 5: "GetNextDate (utc_date 2025 1 31) Quarterly = Inr (utc_date 2025 5 1)"
    by code_simp
  have 6: "Time_Date (utc_date 2025 5 1) = (2025, 5, 1)" by code_simp
  have 7: "GetNextDate (utc_date 2025 3 31) SemiAnnual = Inr (utc_date 2025 10 1)"
    by code_simp
  have 8: "Time_Date (utc_date 2025 10 1) = (2025, 10, 1)" by code_simp
  have 9: "GetNextDate (utc_date 2024 2 29) Annual = Inr (utc_date 2025 3 1)"
    by code_simp
  have 10: "Time_Date (utc_date 2025 3 1) = (2025, 3, 1)" by code_simp
  have 11: "\<forall>t year month day hour minute second.
      Time_Date t = (year, month, day) \<and> Clock t = (hour, minute, second) \<longrightarrow>
      GetNextDate t Monthly =
        Inr (AddDate (time_Date year (month + 1) 1 hour minute second (wall t) (loc t))
               0 0 (day - 1)) \<and>
      GetNextDate t Quarterly =
        Inr (AddDate (time_Date year (month + 3) 1 hour minute second (wall t) (loc t))
               0 0 (day - 1)) \<and>
      GetNextDate t SemiAnnual =
        Inr (AddDate (time_Date year (month + 6) 1 hour minute second (wall t) (loc t))
               0 0 (day - 1)) \<and>
      GetNextDate t Annual =
        Inr (AddDate (time_Date (year + 1) month 1 hour minute second (wall t) (loc t))
               0 0 (day - 1))"
  proof (intro allI impI)
    fix t year month day hour minute second
    assume h: "Time_Date t = (year, month, day) \<and> Clock t = (hour, minute, second)"
    note m = GetNextDate_months[OF h[THEN conjunct1] h[THEN conjunct2]]
    show "GetNextDate t Monthly =
        Inr (AddDate (time_Date year (month + 1) 1 hour minute second (wall t) (loc t))
               0 0 (day - 1)) \<and>
      GetNextDate t Quarterly =
        Inr (AddDate (time_Date year (month + 3) 1 hour minute second (wall t) (loc t))
               0 0 (day - 1)) \<and>
      GetNextDate t SemiAnnual =
        Inr (AddDate (time_Date year (month + 6) 1 hour minute second (wall t) (loc t))
               0 0 (day - 1)) \<and>
      GetNextDate t Annual =
        Inr (AddDate (time_Date (year + 1) month 1 hour minute second (wall t) (loc t))
               0 0 (day - 1))"
      by (rule conjI[OF m(1) conjI[OF m(2) conjI[OF m(3) m(4)]]])
  qed
  show ?thesis
    by (rule conjI[OF 1 conjI[OF 2 conjI[OF 3 conjI[OF 4 conjI[OF 5 conjI[OF 6 conjI[OF 7
      conjI[OF 8 conjI[OF 9 conjI[OF 10 11]]]]]]]]]])
qed

theorem GetNextDate_rolls_over_witness:
  "Time_Date (utc_date 2025 5 31) = (2025, 5, 31) \<and>
   Clock (utc_date 2025 5 31) = (0, 0, 0) \<and>
   GetNextDate (utc_date 2025 5 31) Monthly = Inr (AddDate (utc_date 2025 6 1) 0 0 30) \<and>
   AddDate (utc_date 2025 6 1) 0 0 30 = utc_date 2025 7 1"
proof -
  have a: "Time_Date (utc_date 2025 5 31) = (2025, 5, 31) \<and>
      Clock (utc_date 2025 5 31) = (0, 0, 0)" by code_simp
  have b: "AddDate (utc_date 2025 6 1) 0 0 30 = utc_date 2025 7 1" by code_simp
  have f: "wall (utc_date 2025 5 31) = 0" "loc (utc_date 2025 5 31) = UTC"
    unfolding time_Date_fields by simp_all
  from GetNextDate_rolls_over[THEN conjunct2, THEN conjunct2, THEN conjunct2,
      THEN conjunct2, THEN conjunct2, THEN conjunct2, THEN conjunct2, THEN conjunct2,
      THEN conjunct2, THEN conjunct2, THEN spec, THEN spec, THEN spec, THEN spec, THEN spec,
      THEN spec, THEN spec, THEN mp, OF a, THEN conjunct1]
  have "GetNextDate (utc_date 2025 5 31) Monthly = Inr (AddDate (utc_date 2025 6 1) 0 0 30)"
    unfolding f by simp
  with a b show ?thesis by (intro conjI) simp_all
qed

subsection \<open>Events that start before the window\<close>

text \<open>
  No entry is dated after \<open>cfEnd\<close>. When the dates are \<open>dates_in_range\<close>, an entry can be
  dated before \<open>cfBegin\<close> in one way only: an event without frequency, with a value other
  than zero, starts on that date.
\<close>

lemma events_loop_lower_bound:
  assumes "events_loop b en evs [] = Some m" "dates_in_range evs b en"
  shows "\<forall>d \<in> fst ` set m. \<not> Before d b \<or>
    (\<exists>e \<in> set evs. Value e \<noteq> 0 \<and> Frequency e = '''' \<and> StartDate e = d \<and> Before d b)"
proof -
  from assms(2) have r: "wellformed b" "in_range en"
    "list_all (\<lambda>event. wellformed (StartDate event)) evs"
    unfolding dates_in_range_def by simp_all
  define I :: "'a cfMap \<Rightarrow> bool" where
    "I = (\<lambda>m. \<forall>d \<in> fst ` set m. \<not> Before d b \<or>
      (\<exists>e \<in> set evs. Value e \<noteq> 0 \<and> Frequency e = '''' \<and> StartDate e = d \<and> Before d b))"
  define J :: "'a Event \<Rightarrow> Time \<Rightarrow> bool" where
    "J = (\<lambda>e c. wellformed c \<and> (\<not> Before c b \<or> (Frequency e = '''' \<and> c = StartDate e)))"
  have "I m"
  proof (rule events_loop_rule[of b en evs "[]" m I J, OF assms(1)])
    show "I []" unfolding I_def by simp
  next
    fix e :: "'a Event" and c
    assume e: "e \<in> set evs" and g: "GetFirstDate e b en = Some (c, True)"
    from e r(3) have "wellformed (StartDate e)" unfolding list_all_iff by blast
    from GetFirstDate_wellformed[OF g this r(1)] show "J e c" unfolding J_def by blast
  next
    fix e :: "'a Event" and d n
    assume j: "J e d" and na: "\<not> After d en" and f: "Frequency e \<noteq> ''''"
      and n: "GetNextDate d (Frequency e) = Inr n"
    from j have wd: "wellformed d" and nb: "\<not> Before d b" using f unfolding J_def by blast+
    from in_range_before[OF r(2) wd na] have "in_range d" .
    from GetNextDate_increases[OF this n] have "Before d n" .
    with nb have "\<not> Before n b" by auto
    moreover have "wellformed n" using GetNextDate_wellformed(1)[OF wd n] .
    ultimately show "J e n" unfolding J_def by blast
  next
    fix e :: "'a Event" and d :: Time and m
    assume e: "e \<in> set evs" "Value e \<noteq> 0" and j: "J e d" and i: "I m"
    have new: "\<not> Before d b \<or>
        (\<exists>e \<in> set evs. Value e \<noteq> 0 \<and> Frequency e = '''' \<and> StartDate e = d \<and> Before d b)"
    proof (cases "Before d b")
      case False
      then show ?thesis by (rule disjI1)
    next
      case True
      with j have "Frequency e = ''''" "StartDate e = d" unfolding J_def by blast+
      with e True show ?thesis by blast
    qed
    show "I (cfMap_append d \<lparr>ItemName = Name e, ItemValue = Value e\<rparr> m)"
      unfolding I_def
    proof
      fix d'
      assume "d' \<in> fst ` set (cfMap_append d \<lparr>ItemName = Name e, ItemValue = Value e\<rparr> m)"
      then have "d' = d \<or> d' \<in> fst ` set m" using cfMap_append_dates by fastforce
      then show "\<not> Before d' b \<or>
          (\<exists>e \<in> set evs. Value e \<noteq> 0 \<and> Frequency e = '''' \<and> StartDate e = d' \<and> Before d' b)"
        using new i unfolding I_def by blast
    qed
  qed
  then show ?thesis unfolding I_def .
qed

lemma GenerateCashflows_date_bounds:
  assumes "runtime_ok rt" "GenerateCashflows rt events cfBegin cfEnd = Some (Inr cashflows)"
    and "cf \<in> set cashflows"
  shows "\<not> After (Date cf) cfEnd"
    and "dates_in_range events cfBegin cfEnd \<Longrightarrow>
      \<not> Before (Date cf) cfBegin \<or>
      (\<exists>e \<in> set events. Value e \<noteq> 0 \<and> Frequency e = '''' \<and> StartDate e = Date cf \<and>
         Before (Date cf) cfBegin)"
proof -
  show "\<not> After (Date cf) cfEnd" by (rule GenerateCashflows_entries(4)[OF assms])
  assume r: "dates_in_range events cfBegin cfEnd"
  from GenerateCashflows_Inr[OF assms(2)] obtain m
    where m: "events_loop cfBegin cfEnd events [] = Some m"
      and c: "cashflows = sortCashflowsByDate rt (cfMap_entries (range_order rt m))"
    by blast
  have "set cashflows = set (cfMap_entries m)"
    unfolding c using runtime_entries[OF assms(1), of m] by (rule mset_eq_setD)
  with assms(3) have "cf \<in> set (cfMap_entries m)" by simp
  from cfMap_entries_fields[OF this] have "Date cf \<in> fst ` set m" by force
  with events_loop_lower_bound[OF m r]
  show "\<not> Before (Date cf) cfBegin \<or>
      (\<exists>e \<in> set events. Value e \<noteq> 0 \<and> Frequency e = '''' \<and> StartDate e = Date cf \<and>
         Before (Date cf) cfBegin)"
    by blast
qed

lemma early_request_run:
  assumes "runtime_ok rt"
  shows "GenerateCashflows rt (Events early_request) (SimStart early_request)
      (SimEnd early_request) =
    Some (Inr [\<lparr>Date = utc_date 2024 6 1, Cashflow = 100, Balance = 0,
                 Items = [\<lparr>ItemName = ''Deposit'', ItemValue = 100\<rparr>]\<rparr>])"
proof -
  have w: "\<not> After (SimStart early_request) (SimEnd early_request)" by code_simp
  have l: "events_loop (SimStart early_request) (SimEnd early_request)
      (Events early_request) [] =
    Some [(utc_date 2024 6 1, [\<lparr>ItemName = ''Deposit'', ItemValue = 100\<rparr>])]"
    by code_simp
  show ?thesis
    unfolding GenerateCashflows_def if_not_P[OF w] l
    by (simp add: cfMap_entries_def items_total_def sortCashflowsByDate_def
        runtime_singleton[OF assms])
qed

text \<open>
  C1. The claim is that no entry of \<open>GenerateCashflows\<close> is dated outside the window. The
  code does not keep it. For an event without frequency \<open>GetFirstDate\<close> returns the start
  date even when it is before \<open>cfBegin\<close>, and the expansion only checks the date against
  \<open>cfEnd\<close> and the end date. On the request \<open>early_request\<close>, whose window is the year 2025,
  the event of 2024-06-01 gives an entry dated 2024-06-01.
\<close>

theorem GenerateCashflows_entry_before_window:
  assumes "runtime_ok rt"
  shows "GenerateCashflows rt (Events early_request) (SimStart early_request)
       (SimEnd early_request) =
     Some (Inr [\<lparr>Date = utc_date 2024 6 1, Cashflow = 100, Balance = 0,
                  Items = [\<lparr>ItemName = ''Deposit'', ItemValue = 100\<rparr>]\<rparr>]) \<and>
   SimStart early_request = utc_date 2025 1 1 \<and>
   SimEnd early_request = utc_date 2025 12 31 \<and>
   Before (utc_date 2024 6 1) (utc_date 2025 1 1) \<and>
   Before (utc_date 2025 1 1) (utc_date 2025 12 31)"
proof -
  have "SimStart early_request = utc_date 2025 1 1 \<and>
      SimEnd early_request = utc_date 2025 12 31 \<and>
      Before (utc_date 2024 6 1) (utc_date 2025 1 1) \<and>
      Before (utc_date 2025 1 1) (utc_date 2025 12 31)"
    by code_simp
  with early_request_run[OF assms] show ?thesis by (rule conjI)
qed

theorem GenerateCashflows_entry_before_window_witness:
  "runtime_ok (example_runtime :: int runtime) \<and>
   GenerateCashflows example_runtime (Events early_request) (SimStart early_request)
       (SimEnd early_request) =
     Some (Inr [\<lparr>Date = utc_date 2024 6 1, Cashflow = 100, Balance = 0,
                  Items = [\<lparr>ItemName = ''Deposit'', ItemValue = 100\<rparr>]\<rparr>]) \<and>
   Before (utc_date 2024 6 1) (SimStart early_request)"
proof -
  note ok = runtime_ok_example_runtime[where 'a = int]
  note t = GenerateCashflows_entry_before_window[OF ok]
  have "Before (utc_date 2024 6 1) (SimStart early_request)"
    unfolding t[THEN conjunct2, THEN conjunct1]
    using t[THEN conjunct2, THEN conjunct2, THEN conjunct2, THEN conjunct1] .
  with ok t[THEN conjunct1] show ?thesis by (intro conjI)
qed

text \<open>
  C10. The claim is that the dates of the ledger of \<open>RunSimulation\<close> never decrease. The
  code does not keep it, for the reason given for C1: on \<open>early_request\<close> the ledger is
  the initial entry dated 2025-01-01 followed by the entry dated 2024-06-01.
\<close>

theorem RunSimulation_ledger_dates_decrease:
  assumes "runtime_ok rt"
  shows "RunSimulation rt early_request =
     Some (Inr \<lparr>Cashflows =
       [\<lparr>Date = utc_date 2025 1 1, Cashflow = 0, Balance = 1000, Items = []\<rparr>,
        \<lparr>Date = utc_date 2024 6 1, Cashflow = 100, Balance = 1100,
          Items = [\<lparr>ItemName = ''Deposit'', ItemValue = 100\<rparr>]\<rparr>]\<rparr>) \<and>
   Before (utc_date 2024 6 1) (utc_date 2025 1 1)"
proof -
  have b: "BalanceFromCashflows (InitialBalance early_request) (SimStart early_request)
      [\<lparr>Date = utc_date 2024 6 1, Cashflow = 100, Balance = 0,
         Items = [\<lparr>ItemName = ''Deposit'', ItemValue = 100\<rparr>]\<rparr>] =
    [\<lparr>Date = utc_date 2025 1 1, Cashflow = 0, Balance = 1000, Items = []\<rparr>,
     \<lparr>Date = utc_date 2024 6 1, Cashflow = 100, Balance = 1100,
       Items = [\<lparr>ItemName = ''Deposit'', ItemValue = 100\<rparr>]\<rparr>]"
    by code_simp
  have c: "Before (utc_date 2024 6 1) (utc_date 2025 1 1)" by code_simp
  have "RunSimulation rt early_request =
     Some (Inr \<lparr>Cashflows =
       [\<lparr>Date = utc_date 2025 1 1, Cashflow = 0, Balance = 1000, Items = []\<rparr>,
        \<lparr>Date = utc_date 2024 6 1, Cashflow = 100, Balance = 1100,
          Items = [\<lparr>ItemName = ''Deposit'', ItemValue = 100\<rparr>]\<rparr>]\<rparr>)"
    unfolding RunSimulation_def early_request_run[OF assms] by (simp add: b)
  with c show ?thesis by (intro conjI)
qed

theorem RunSimulation_ledger_dates_decrease_witness:
  "runtime_ok (example_runtime :: int runtime) \<and>
   RunSimulation example_runtime early_request =
     Some (Inr \<lparr>Cashflows =
       [\<lparr>Date = utc_date 2025 1 1, Cashflow = 0, Balance = 1000, Items = []\<rparr>,
        \<lparr>Date = utc_date 2024 6 1, Cashflow = 100, Balance = 1100,
          Items = [\<lparr>ItemName = ''Deposit'', ItemValue = 100\<rparr>]\<rparr>]\<rparr>)"
proof -
  note ok = runtime_ok_example_runtime[where 'a = int]
  from ok RunSimulation_ledger_dates_decrease[OF ok, THEN conjunct1]
  show ?thesis by (rule conjI)
qed

end
